theory Spec2Isabelle
  imports Main "HOL-Library.Word"
begin

section \<open>Strings\<close>

text \<open>
  The source is TypeScript: a string is a sequence of 16-bit code units, and a
  character (\<^verbatim>\<open>input[i]\<close>) is a string of length one. \<open>str\<close> embeds a literal.
\<close>

type_synonym jsstring = "16 word list"

definition str :: "string \<Rightarrow> jsstring" where
  "str s = map of_char s"

section \<open>Tokenizer (src/src/tokenizer.ts)\<close>

definition lineFeed :: "16 word" where
  "lineFeed = 10"

definition carriageReturn :: "16 word" where
  "carriageReturn = 13"

definition space :: "16 word" where
  "space = 32"

text \<open>\<^verbatim>\<open>char.charCodeAt(0)\<close> is NaN on the empty string, and NaN equals no code.\<close>

definition isNewLine :: "jsstring \<Rightarrow> bool" where
  "isNewLine char =
     (case char of [] \<Rightarrow> False | code # _ \<Rightarrow> code = lineFeed \<or> code = carriageReturn)"

definition isWhitespace :: "jsstring \<Rightarrow> bool" where
  "isWhitespace char = (case char of [] \<Rightarrow> False | code # _ \<Rightarrow> code = space)"

datatype TokenType = Whitespace | Word | Keyword | Sign

record Token =
  tok_type :: TokenType
  tok_value :: jsstring
  tok_start :: nat
  tok_end :: nat
  tok_line :: nat
  tok_col :: nat

text \<open>
  The values of the enums \<^verbatim>\<open>Sign\<close> and \<^verbatim>\<open>Keyword\<close>, in declaration order. The
  double quotation mark is the code unit 34, the grave accent the code unit 96.
\<close>

definition DoubleQuotationMark :: jsstring where
  "DoubleQuotationMark = [34]"

definition Sign_values :: "jsstring list" where
  "Sign_values =
     [str ''('', str '')'', str ''{'', str ''}'', str ''$'', [96],
      DoubleQuotationMark, str '':'', str ''#'', str ''/'']"

definition Keyword_values :: "jsstring list" where
  "Keyword_values =
     [str ''alias'', str ''if'', str ''else'', str ''end'', str ''branch'', str ''goto'']"

definition isKeyword :: "jsstring \<Rightarrow> bool" where
  "isKeyword token = (token \<in> set Keyword_values)"

definition isSign :: "jsstring \<Rightarrow> bool" where
  "isSign char = (char \<in> set Sign_values)"

text \<open>\<^verbatim>\<open>str[index] ?? ""\<close>: the empty string outside the string.\<close>

definition getSafeString :: "jsstring \<Rightarrow> nat \<Rightarrow> jsstring" where
  "getSafeString s i = (if i < length s then [s ! i] else [])"

text \<open>
  The state of the class \<^verbatim>\<open>Tokenizer\<close>. Every token object is pushed on
  \<^verbatim>\<open>tokenList\<close> when it is created, and \<^verbatim>\<open>lastToken\<close> is a reference to such an
  object: the reference is modelled as the object's position in \<open>tokenList\<close>, so a
  write through \<^verbatim>\<open>lastToken\<close> is a write to that element of the list.
\<close>

record Tokenizer =
  input :: jsstring
  index :: nat
  position_line :: nat
  position_col :: nat
  lastToken :: "nat option"
  tokenList :: "Token list"

definition new_Tokenizer :: Tokenizer where
  "new_Tokenizer =
     \<lparr>input = [], index = 0, position_line = 0, position_col = 0,
      lastToken = None, tokenList = []\<rparr>"

definition pushToken :: "TokenType \<Rightarrow> jsstring \<Rightarrow> Tokenizer \<Rightarrow> Tokenizer" where
  "pushToken type char s =
     (let s1 =
        (if (case lastToken s of None \<Rightarrow> False
             | Some k \<Rightarrow> tok_type (tokenList s ! k) = type \<and>
                 tok_type (tokenList s ! k) \<in> set [Whitespace, Word])
         then
           (case lastToken s of None \<Rightarrow> s
            | Some k \<Rightarrow>
                s\<lparr>tokenList := (tokenList s)
                    [k := (tokenList s ! k)
                       \<lparr>tok_value := tok_value (tokenList s ! k) @ char,
                        tok_end := tok_end (tokenList s ! k) + 1\<rparr>]\<rparr>)
         else
           (let s2 =
              (case lastToken s of None \<Rightarrow> s
               | Some k \<Rightarrow>
                   if isKeyword (tok_value (tokenList s ! k))
                   then s\<lparr>tokenList := (tokenList s)
                           [k := (tokenList s ! k)\<lparr>tok_type := Keyword\<rparr>]\<rparr>
                   else s);
              s3 = s2\<lparr>lastToken := Some (length (tokenList s2)),
                      tokenList := tokenList s2 @
                        [\<lparr>tok_type = type, tok_value = char, tok_start = index s,
                          tok_end = index s + 1, tok_line = position_line s,
                          tok_col = position_col s\<rparr>]\<rparr>
            in s3\<lparr>position_col := position_col s3 + 1\<rparr>))
      in s1\<lparr>index := index s1 + 1\<rparr>)"

definition pushNewLine :: "jsstring \<Rightarrow> Tokenizer \<Rightarrow> Tokenizer" where
  "pushNewLine char s =
     (let next = getSafeString (input s) (index s + 1);
          s1 = (if char \<noteq> next \<and> isNewLine next then s\<lparr>index := index s + 1\<rparr> else s)
      in s1\<lparr>position_line := position_line s1 + 1, position_col := 0,
            index := index s1 + 1, lastToken := None\<rparr>)"

text \<open>One iteration of the loop of \<^verbatim>\<open>run\<close>; the loop guard keeps the read in range.\<close>

definition run_body :: "Tokenizer \<Rightarrow> Tokenizer" where
  "run_body s =
     (let char = [input s ! index s]
      in if isNewLine char then pushNewLine char s
         else if isWhitespace char then pushToken Whitespace char s
         else if isSign char then pushToken Sign char s
         else pushToken Word char s)"

lemma input_run_body: "input (run_body s) = input s"
  by (simp add: run_body_def pushNewLine_def pushToken_def Let_def split: option.splits)

lemma index_run_body: "index s < index (run_body s)"
  by (simp add: run_body_def pushNewLine_def pushToken_def Let_def split: option.splits)

function run_loop :: "Tokenizer \<Rightarrow> Tokenizer" where
  "run_loop s = (if index s < length (input s) then run_loop (run_body s) else s)"
  by pat_completeness auto
termination
proof (relation "measure (\<lambda>s. length (input s) - index s)")
  show "wf (measure (\<lambda>s. length (input s) - index s))"
    by simp
next
  fix s :: Tokenizer
  assume "index s < length (input s)"
  then show "(run_body s, s) \<in> measure (\<lambda>s. length (input s) - index s)"
    using index_run_body [of s] by (simp add: input_run_body)
qed

text \<open>
  \<^verbatim>\<open>run\<close> stores the input and runs the loop; \<open>run\<close> gives the final state, of
  which the source returns \<^verbatim>\<open>tokenList\<close>. \<^verbatim>\<open>tokenizer\<close> runs a new \<^verbatim>\<open>Tokenizer\<close>.
\<close>

definition run :: "jsstring \<Rightarrow> Tokenizer \<Rightarrow> Tokenizer" where
  "run inp s = run_loop (s\<lparr>input := inp\<rparr>)"

definition tokenizer :: "jsstring \<Rightarrow> Token list" where
  "tokenizer inp = tokenList (run inp new_Tokenizer)"

section \<open>Parser (src/src/parser.ts)\<close>

subsection \<open>The nodes of the tree\<close>

datatype StringLiteral = StringLiteral jsstring

datatype AliasLiteral = AliasLiteral jsstring

text \<open>\<^verbatim>\<open>PackedStatement\<close>: its \<^verbatim>\<open>value\<close>, then its \<^verbatim>\<open>body\<close>.\<close>

datatype PackedStatement = PackedStatement jsstring StringLiteral

text \<open>\<^verbatim>\<open>AliasStatement\<close>: the two components of its \<^verbatim>\<open>body\<close> tuple.\<close>

datatype AliasStatement = AliasStatement AliasLiteral PackedStatement

datatype Node = AliasStatementNode AliasStatement | StringLiteralNode StringLiteral

datatype Program = Program (body: "Node list")

subsection \<open>Collectors\<close>

text \<open>
  \<^verbatim>\<open>throw new Error()\<close> is \<open>Error\<close>. \<open>TypeError\<close> is what the runtime raises when
  the code calls an undefined rule or reads a field of an undefined token.
\<close>

datatype error = Error | TypeError

text \<open>The fields of the base class \<^verbatim>\<open>Collector\<close> that change while it runs.\<close>

record CollectorBase =
  c_tokenList :: "Token list"
  c_index :: nat
  complete :: bool
  skipWhitespace :: bool

text \<open>The two subclasses, each with the fields of the base class and its own node.\<close>

datatype Collector =
  AliasStatementCollector CollectorBase AliasStatement
| StringLiteralCollector CollectorBase StringLiteral

fun base :: "Collector \<Rightarrow> CollectorBase" where
  "base (AliasStatementCollector b n) = b"
| "base (StringLiteralCollector b n) = b"

fun with_base :: "CollectorBase \<Rightarrow> Collector \<Rightarrow> Collector" where
  "with_base b' (AliasStatementCollector b n) = AliasStatementCollector b' n"
| "with_base b' (StringLiteralCollector b n) = StringLiteralCollector b' n"

fun node :: "Collector \<Rightarrow> Node" where
  "node (AliasStatementCollector b n) = AliasStatementNode n"
| "node (StringLiteralCollector b n) = StringLiteralNode n"

definition new_CollectorBase :: CollectorBase where
  "new_CollectorBase =
     \<lparr>c_tokenList = [], c_index = 0, complete = False, skipWhitespace = True\<rparr>"

definition new_AliasStatementCollector :: Collector where
  "new_AliasStatementCollector =
     AliasStatementCollector new_CollectorBase
       (AliasStatement (AliasLiteral []) (PackedStatement [] (StringLiteral [])))"

definition new_StringLiteralCollector :: Collector where
  "new_StringLiteralCollector =
     StringLiteralCollector new_CollectorBase (StringLiteral [])"

text \<open>
  A rule maps a token to a boolean or to a new collector
  (\<^verbatim>\<open>type CollectorRule = (token: Token) => boolean | Collector\<close>).
\<close>

datatype RuleResult = Bool bool | NewCollector Collector

type_synonym CollectorRule = "Token \<Rightarrow> RuleResult"

fun ruleList :: "Collector \<Rightarrow> CollectorRule list" where
  "ruleList (AliasStatementCollector b n) =
     [\<lambda>t. Bool (tok_value t = str ''alias''),
      \<lambda>t. Bool (tok_type t = Word),
      \<lambda>t. Bool (tok_value t = str ''#''),
      \<lambda>t. Bool (tok_type t = Word),
      \<lambda>t. Bool (tok_value t = str ''(''),
      \<lambda>t. NewCollector new_StringLiteralCollector,
      \<lambda>t. Bool (tok_value t = str '')'')]"
| "ruleList (StringLiteralCollector b n) =
     [\<lambda>t. Bool (tok_value t = DoubleQuotationMark),
      \<lambda>t. Bool (tok_type t = Word),
      \<lambda>t. Bool (tok_value t = DoubleQuotationMark)]"

text \<open>
  \<^verbatim>\<open>pushCollector\<close>: the alias collector copies the value of a finished string
  collector into the body of its packed statement; the base class does nothing.
\<close>

fun pushCollector :: "Collector \<Rightarrow> Collector \<Rightarrow> Collector" where
  "pushCollector (AliasStatementCollector b (AliasStatement a (PackedStatement v (StringLiteral old))))
       (StringLiteralCollector cb (StringLiteral sv)) =
     AliasStatementCollector b (AliasStatement a (PackedStatement v (StringLiteral sv)))"
| "pushCollector this c = this"

text \<open>
  \<^verbatim>\<open>compose\<close>. The alias collector takes the first two buffered tokens of type
  Word; the string collector takes the second buffered token. Reading
  \<^verbatim>\<open>.value\<close> of a missing token is a TypeError.
\<close>

fun compose :: "Collector \<Rightarrow> error + Collector" where
  "compose (AliasStatementCollector b (AliasStatement (AliasLiteral old) (PackedStatement oldv sl))) =
     (case filter (\<lambda>t. tok_type t = Word) (c_tokenList b) of
        aliasValue # packedValue # others \<Rightarrow>
          Inr (AliasStatementCollector b
                 (AliasStatement (AliasLiteral (tok_value aliasValue))
                    (PackedStatement (tok_value packedValue) sl)))
      | _ \<Rightarrow> Inl TypeError)"
| "compose (StringLiteralCollector b (StringLiteral old)) =
     (if 1 < length (c_tokenList b)
      then Inr (StringLiteralCollector b (StringLiteral (tok_value (c_tokenList b ! 1))))
      else Inl TypeError)"

text \<open>
  \<^verbatim>\<open>Collector.next\<close>, given a token (\<open>Inl\<close>) or a finished collector (\<open>Inr\<close>).
  It returns the collector as updated and the value returned by the method:
  a new collector, or nothing.
\<close>

definition Collector_next ::
  "Collector \<Rightarrow> Token + Collector \<Rightarrow> error + (Collector \<times> Collector option)" where
  "Collector_next this arg =
     (case arg of
        Inr c \<Rightarrow>
          (let this1 = pushCollector this c
           in Inr (with_base ((base this1)\<lparr>c_index := c_index (base this1) + 1\<rparr>) this1, None))
      | Inl token \<Rightarrow>
          if skipWhitespace (base this) \<and> tok_type token = Whitespace then Inr (this, None)
          else if \<not> c_index (base this) < length (ruleList this) then Inl TypeError
          else
            (case (ruleList this ! c_index (base this)) token of
               NewCollector m \<Rightarrow> Inr (this, Some m)
             | Bool match \<Rightarrow>
                 if match then
                   (let b1 = (base this)\<lparr>c_tokenList := c_tokenList (base this) @ [token]\<rparr>;
                        b2 = (if c_index b1 = length (ruleList this) - 1
                              then b1\<lparr>complete := True\<rparr> else b1)
                    in Inr (with_base (b2\<lparr>c_index := c_index b2 + 1\<rparr>) this, None))
                 else Inl Error))"

subsection \<open>The driver\<close>

text \<open>
  The state of \<^verbatim>\<open>Parser.run\<close>: the cursor, the tree, and the collector stack with
  its top at the head of the list. The locals \<^verbatim>\<open>collector\<close> and \<^verbatim>\<open>node\<close> of the
  source are the top of the stack and its node (both null when the stack is
  empty): every assignment to them in \<^verbatim>\<open>run\<close> goes with the push or pop that
  makes it so.
\<close>

record Parser =
  p_index :: nat
  ast :: Program
  collectorStack :: "Collector list"

definition new_Parser :: Parser where
  "new_Parser = \<lparr>p_index = 0, ast = Program [], collectorStack = []\<rparr>"

text \<open>One iteration of the loop of \<^verbatim>\<open>run\<close>; the loop guard keeps the read in range.\<close>

definition Parser_body :: "Token list \<Rightarrow> Parser \<Rightarrow> error + Parser" where
  "Parser_body tokens s =
     (let token = tokens ! p_index s;
          s0 = s\<lparr>p_index := p_index s + 1\<rparr>
      in case collectorStack s0 of
           collector # rest \<Rightarrow>
             (case Collector_next collector (Inl token) of
                Inl e \<Rightarrow> Inl e
              | Inr (collector1, newCollector) \<Rightarrow>
                  (let s1 =
                     (case newCollector of
                        Some nc \<Rightarrow>
                          s0\<lparr>collectorStack := nc # collector1 # rest,
                             p_index := p_index s0 - 1\<rparr>
                      | None \<Rightarrow> s0\<lparr>collectorStack := collector1 # rest\<rparr>);
                       cur = hd (collectorStack s1)
                   in if complete (base cur) then
                        (case compose cur of
                           Inl e \<Rightarrow> Inl e
                         | Inr cur1 \<Rightarrow>
                             (case tl (collectorStack s1) of
                                last0 # below \<Rightarrow>
                                  (case Collector_next last0 (Inr cur1) of
                                     Inl e \<Rightarrow> Inl e
                                   | Inr (last1, r) \<Rightarrow>
                                       Inr (s1\<lparr>collectorStack := last1 # below\<rparr>))
                              | [] \<Rightarrow>
                                  Inr (s1\<lparr>ast := Program (body (ast s1) @ [node cur1]),
                                         collectorStack := []\<rparr>)))
                      else Inr s1))
         | [] \<Rightarrow>
             if tok_value token = str ''alias''
             then Inr (s0\<lparr>collectorStack := [new_AliasStatementCollector],
                         p_index := p_index s0 - 1\<rparr>)
             else Inr s0)"

text \<open>
  The loop of \<^verbatim>\<open>run\<close> rewinds the cursor when a collector is started, so the
  cursor alone does not decrease. A rewind is followed by an iteration that
  consumes the token or throws: the measure counts the remaining tokens twice
  and adds one while the top of the stack can still start a collector.
\<close>

fun spawning :: "Collector \<Rightarrow> bool" where
  "spawning (AliasStatementCollector b n) = (c_index b = 5)"
| "spawning (StringLiteralCollector b n) = False"

definition Parser_measure :: "Token list \<times> Parser \<Rightarrow> nat" where
  "Parser_measure p =
     (case p of (tokens, s) \<Rightarrow>
        2 * (length tokens - p_index s) +
        (case collectorStack s of [] \<Rightarrow> 1 | c # cs \<Rightarrow> if spawning c then 1 else 0))"

lemma less_7_cases: "(i::nat) < 7 \<Longrightarrow> i = 0 \<or> i = 1 \<or> i = 2 \<or> i = 3 \<or> i = 4 \<or> i = 5 \<or> i = 6"
  by arith

lemma less_3_cases: "(i::nat) < 3 \<Longrightarrow> i = 0 \<or> i = 1 \<or> i = 2"
  by arith

lemma Collector_next_Some:
  assumes "Collector_next c (Inl t) = Inr (c1, Some nc)"
  shows "spawning c \<and> c1 = c \<and> nc = new_StringLiteralCollector"
proof (cases c)
  case (AliasStatementCollector b n)
  from assms have lt: "c_index b < 7"
    by (simp add: Collector_next_def AliasStatementCollector split: if_splits)
  from less_7_cases [OF lt] assms show ?thesis
    by (elim disjE) (simp_all add: Collector_next_def AliasStatementCollector Let_def split: if_splits)
next
  case (StringLiteralCollector b n)
  from assms have lt: "c_index b < 3"
    by (simp add: Collector_next_def StringLiteralCollector split: if_splits)
  from less_3_cases [OF lt] assms show ?thesis
    by (elim disjE) (simp_all add: Collector_next_def StringLiteralCollector Let_def split: if_splits)
qed

lemma Parser_body_measure:
  assumes "p_index s < length tokens" and "Parser_body tokens s = Inr s'"
  shows "Parser_measure (tokens, s') < Parser_measure (tokens, s)"
proof (cases "collectorStack s")
  case Nil
  with assms show ?thesis
    by (auto simp: Parser_body_def Parser_measure_def Let_def new_AliasStatementCollector_def
        new_CollectorBase_def split: if_splits)
next
  case (Cons c rest)
  show ?thesis
  proof (cases "Collector_next c (Inl (tokens ! p_index s))")
    case (Inl e)
    with assms Cons show ?thesis
      by (simp add: Parser_body_def Let_def)
  next
    case (Inr r)
    obtain c1 r2 where r: "r = (c1, r2)" by (cases r)
    show ?thesis
    proof (cases r2)
      case None
      with assms Cons Inr r have "p_index s' = p_index s + 1"
        by (auto simp: Parser_body_def Let_def split: if_splits sum.splits list.splits prod.splits)
      with assms show ?thesis
        by (auto simp: Parser_measure_def split: list.splits)
    next
      case (Some nc)
      with Inr r Collector_next_Some [of c "tokens ! p_index s" c1 nc]
      have sp: "spawning c" and nc: "nc = new_StringLiteralCollector" by simp_all
      from assms Cons Inr r Some nc
      have "s' = s\<lparr>collectorStack := new_StringLiteralCollector # c1 # rest\<rparr>"
        by (simp add: Parser_body_def Let_def new_StringLiteralCollector_def new_CollectorBase_def)
      with sp Cons show ?thesis
        by (simp add: Parser_measure_def new_StringLiteralCollector_def)
    qed
  qed
qed

function Parser_loop :: "Token list \<Rightarrow> Parser \<Rightarrow> error + Parser" where
  "Parser_loop tokens s =
     (if p_index s < length tokens
      then (case Parser_body tokens s of Inl e \<Rightarrow> Inl e | Inr s' \<Rightarrow> Parser_loop tokens s')
      else Inr s)"
  by pat_completeness auto
termination
proof (relation "measure Parser_measure")
  show "wf (measure Parser_measure)"
    by simp
next
  fix tokens :: "Token list" and s s' :: Parser
  assume "p_index s < length tokens" and "Parser_body tokens s = Inr s'"
  then show "((tokens, s'), (tokens, s)) \<in> measure Parser_measure"
    by (simp add: Parser_body_measure)
qed

text \<open>\<^verbatim>\<open>run\<close> returns the tree when the loop ends; an exception leaves it.\<close>

definition Parser_run :: "Token list \<Rightarrow> Parser \<Rightarrow> error + Program" where
  "Parser_run tokens s =
     (case Parser_loop tokens s of Inl e \<Rightarrow> Inl e | Inr s' \<Rightarrow> Inr (ast s'))"

definition parser :: "Token list \<Rightarrow> error + Program" where
  "parser tokens = Parser_run tokens new_Parser"

section \<open>Definitions used to state and prove the properties\<close>

text \<open>The state of the driver after at most \<open>n\<close> iterations of its loop.\<close>

fun Parser_iterate :: "nat \<Rightarrow> Token list \<Rightarrow> Parser \<Rightarrow> error + Parser" where
  "Parser_iterate 0 tokens s = Inr s"
| "Parser_iterate (Suc n) tokens s =
     (if p_index s < length tokens
      then (case Parser_body tokens s of Inl e \<Rightarrow> Inl e | Inr s' \<Rightarrow> Parser_iterate n tokens s')
      else Inr s)"

text \<open>
  The next token is not whitespace, the collector on top of the stack has a rule
  at its cursor, and that rule is a predicate which the token fails.
\<close>

definition mismatch_at :: "Token list \<Rightarrow> Parser \<Rightarrow> bool" where
  "mismatch_at tokens s =
     (p_index s < length tokens \<and>
      (case collectorStack s of
         [] \<Rightarrow> False
       | c # rest \<Rightarrow>
           tok_type (tokens ! p_index s) \<noteq> Whitespace \<and>
           c_index (base c) < length (ruleList c) \<and>
           (ruleList c ! c_index (base c)) (tokens ! p_index s) = Bool False))"

text \<open>A running collector of each class, and a token, written compactly.\<close>

definition alias_at :: "Token list \<Rightarrow> nat \<Rightarrow> AliasStatement \<Rightarrow> Collector" where
  "alias_at toks k n =
     AliasStatementCollector
       \<lparr>c_tokenList = toks, c_index = k, complete = False, skipWhitespace = True\<rparr> n"

definition string_at :: "Token list \<Rightarrow> nat \<Rightarrow> StringLiteral \<Rightarrow> Collector" where
  "string_at toks k n =
     StringLiteralCollector
       \<lparr>c_tokenList = toks, c_index = k, complete = False, skipWhitespace = True\<rparr> n"

definition token :: "TokenType \<Rightarrow> string \<Rightarrow> nat \<Rightarrow> nat \<Rightarrow> Token" where
  "token ty v st cl =
     \<lparr>tok_type = ty, tok_value = str v, tok_start = st, tok_end = st + length v,
      tok_line = 0, tok_col = cl\<rparr>"

subsection \<open>For the tokenizer\<close>

text \<open>
  The type that \<^verbatim>\<open>run\<close> passes to \<^verbatim>\<open>pushToken\<close> for a character that is not a line
  break, the retagging that \<^verbatim>\<open>pushToken\<close> applies to the last token before it opens
  a new one, and the token that it opens.
\<close>

definition kind :: "jsstring \<Rightarrow> TokenType" where
  "kind char = (if isWhitespace char then Whitespace else if isSign char then Sign else Word)"

definition promote :: "Token \<Rightarrow> Token" where
  "promote t = (if isKeyword (tok_value t) then t\<lparr>tok_type := Keyword\<rparr> else t)"

definition fresh_token :: "Tokenizer \<Rightarrow> Token" where
  "fresh_token s =
     \<lparr>tok_type = kind [input s ! index s], tok_value = [input s ! index s],
      tok_start = index s, tok_end = index s + 1, tok_line = position_line s,
      tok_col = position_col s\<rparr>"

text \<open>
  Invariants of the loop of \<^verbatim>\<open>run\<close>. \<open>inv_last\<close>: the cursor is inside the input;
  \<^verbatim>\<open>lastToken\<close>, when defined, is the last element of the token list, ends at the
  cursor, lies on the current line and has the type of the character before the
  cursor; it is undefined only at the start or after a line break.
\<close>

definition inv_last :: "Tokenizer \<Rightarrow> bool" where
  "inv_last s =
     (index s \<le> length (input s) \<and>
      (case lastToken s of
         None \<Rightarrow> 0 < index s \<longrightarrow> isNewLine [input s ! (index s - 1)]
       | Some k \<Rightarrow>
           tokenList s \<noteq> [] \<and> k = length (tokenList s) - 1 \<and> 0 < index s \<and>
           tok_end (last (tokenList s)) = index s \<and>
           tok_line (last (tokenList s)) = position_line s \<and>
           tok_type (last (tokenList s)) = kind [input s ! (index s - 1)]))"

text \<open>
  The number of line breaks of a string as the scanner counts them: a line-break
  character together with a different line-break character right after it is one
  break, any other line-break character is one break.
\<close>

fun line_breaks :: "jsstring \<Rightarrow> nat" where
  "line_breaks [] = 0"
| "line_breaks [c] = (if isNewLine [c] then 1 else 0)"
| "line_breaks (c # n # cs) =
     (if isNewLine [c]
      then (if c \<noteq> n \<and> isNewLine [n] then 1 + line_breaks cs else 1 + line_breaks (n # cs))
      else line_breaks (n # cs))"

text \<open>
  The number of line breaks of a string in the words of the specification: a lone
  LF, or a CR optionally followed by LF.
\<close>

fun spec_line_breaks :: "jsstring \<Rightarrow> nat" where
  "spec_line_breaks [] = 0"
| "spec_line_breaks [c] = (if c = lineFeed \<or> c = carriageReturn then 1 else 0)"
| "spec_line_breaks (c # n # cs) =
     (if c = carriageReturn \<and> n = lineFeed then 1 + spec_line_breaks cs
      else if c = lineFeed \<or> c = carriageReturn then 1 + spec_line_breaks (n # cs)
      else spec_line_breaks (n # cs))"

text \<open>\<open>inv_text\<close>: the tokens spell the input read so far, line breaks left out.\<close>

definition inv_text :: "Tokenizer \<Rightarrow> bool" where
  "inv_text s =
     (concat (map tok_value (tokenList s)) =
      filter (\<lambda>c. \<not> isNewLine [c]) (take (index s) (input s)))"



text \<open>
  The classification made by the switch of \<^verbatim>\<open>run\<close>: no type for a line break,
  otherwise Whitespace, Sign or Word, in this order.
\<close>

definition classify :: "jsstring \<Rightarrow> TokenType option" where
  "classify char =
     (if isNewLine char then None
      else if isWhitespace char then Some Whitespace
      else if isSign char then Some Sign
      else Some Word)"

text \<open>
  \<open>tok_ok\<close>: the token is a non-empty slice of the input, none of its characters is
  a line break, and its type is the type of its characters, or Keyword over Word
  characters. \<open>inv_tok\<close>: every token is so.
\<close>

definition tok_ok :: "jsstring \<Rightarrow> Token \<Rightarrow> bool" where
  "tok_ok inp t =
     (tok_start t < tok_end t \<and> tok_end t \<le> length inp \<and>
      tok_value t = take (tok_end t - tok_start t) (drop (tok_start t) inp) \<and>
      (\<forall>c\<in>set (tok_value t).
         \<not> isNewLine [c] \<and> (tok_type t = kind [c] \<or> tok_type t = Keyword \<and> kind [c] = Word)))"

definition inv_tok :: "Tokenizer \<Rightarrow> bool" where
  "inv_tok s = (\<forall>t\<in>set (tokenList s). tok_ok (input s) t)"

text \<open>
  \<open>inv_cover\<close>: every character read that is not a line break lies in a token.
  \<open>inv_pair\<close>: two neighbours read that are both Whitespace or both Word
  characters lie in one token.
\<close>

definition inv_cover :: "Tokenizer \<Rightarrow> bool" where
  "inv_cover s =
     (\<forall>i<index s. \<not> isNewLine [input s ! i] \<longrightarrow>
        (\<exists>t\<in>set (tokenList s). tok_start t \<le> i \<and> i < tok_end t))"

definition inv_pair :: "Tokenizer \<Rightarrow> bool" where
  "inv_pair s =
     (\<forall>i. Suc i < index s \<and> \<not> isNewLine [input s ! i] \<and> \<not> isNewLine [input s ! Suc i] \<and>
          kind [input s ! i] = kind [input s ! Suc i] \<and>
          (kind [input s ! i] = Whitespace \<or> kind [input s ! i] = Word) \<longrightarrow>
        (\<exists>t\<in>set (tokenList s). tok_start t \<le> i \<and> Suc i < tok_end t))"

text \<open>
  \<open>sign_at inp i t\<close>: \<open>t\<close> is the Sign token made of the single character at
  position \<open>i\<close>. \<open>inv_sign\<close>: every Sign character read has its token.
\<close>

definition sign_at :: "jsstring \<Rightarrow> nat \<Rightarrow> Token \<Rightarrow> bool" where
  "sign_at inp i t =
     (tok_type t = Sign \<and> tok_value t = [inp ! i] \<and> tok_start t = i \<and> tok_end t = Suc i)"

definition inv_sign :: "Tokenizer \<Rightarrow> bool" where
  "inv_sign s =
     (\<forall>i<index s. isSign [input s ! i] \<longrightarrow> (\<exists>t\<in>set (tokenList s). sign_at (input s) i t))"

definition inv_scan :: "Tokenizer \<Rightarrow> bool" where
  "inv_scan s = (inv_last s \<and> inv_tok s \<and> inv_cover s \<and> inv_pair s \<and> inv_sign s)"

section \<open>The driver loop\<close>

declare Parser_loop.simps [simp del]

lemma Parser_loop_iterate:
  "Parser_loop tokens s =
     (case Parser_iterate n tokens s of Inl e \<Rightarrow> Inl e | Inr s' \<Rightarrow> Parser_loop tokens s')"
proof (induction n arbitrary: s)
  case 0
  show ?case by simp
next
  case (Suc n)
  show ?case
  proof (cases "p_index s < length tokens")
    case True
    then show ?thesis
      using Suc.IH by (subst Parser_loop.simps) (simp split: sum.splits)
  next
    case False
    then show ?thesis
      by (simp add: Parser_loop.simps)
  qed
qed

lemma Parser_body_mismatch:
  "mismatch_at tokens s \<Longrightarrow> Parser_body tokens s = Inl Error"
  by (auto simp: mismatch_at_def Parser_body_def Collector_next_def Let_def split: list.splits)

lemma Parser_loop_mismatch:
  "mismatch_at tokens s \<Longrightarrow> Parser_loop tokens s = Inl Error"
  by (subst Parser_loop.simps) (simp add: Parser_body_mismatch, simp add: mismatch_at_def)

lemma Parser_loop_top_level:
  "collectorStack s = [] \<Longrightarrow> \<forall>t\<in>set tokens. tok_value t \<noteq> str ''alias'' \<Longrightarrow>
   \<exists>s'. Parser_loop tokens s = Inr s' \<and> ast s' = ast s"
proof (induction tokens s rule: Parser_loop.induct)
  case (1 tokens s)
  show ?case
  proof (cases "p_index s < length tokens")
    case True
    then have "tok_value (tokens ! p_index s) \<noteq> str ''alias''"
      using "1.prems"(2) by simp
    with "1.prems"(1) have b: "Parser_body tokens s = Inr (s\<lparr>p_index := p_index s + 1\<rparr>)"
      by (simp add: Parser_body_def Let_def)
    from "1.IH" [OF True b] "1.prems"
    obtain s' where "Parser_loop tokens (s\<lparr>p_index := p_index s + 1\<rparr>) = Inr s'"
      and "ast s' = ast s" by auto
    with True b show ?thesis
      by (subst Parser_loop.simps) simp
  next
    case False
    then show ?thesis by (simp add: Parser_loop.simps)
  qed
qed

lemma Parser_loop_step:
  "p_index s < length tokens \<Longrightarrow> Parser_body tokens s = Inr s' \<Longrightarrow>
   Parser_loop tokens s = Parser_loop tokens s'"
  by (subst Parser_loop.simps) simp

lemma Parser_body_skip:
  assumes "collectorStack s = c # rest" and "skipWhitespace (base c)" and "\<not> complete (base c)"
    and "tok_type (tokens ! p_index s) = Whitespace"
  shows "Parser_body tokens s = Inr (s\<lparr>p_index := p_index s + 1\<rparr>)"
  using assms by (simp add: Parser_body_def Collector_next_def Let_def)

lemma Parser_loop_skip:
  assumes "collectorStack s = c # rest" and "skipWhitespace (base c)" and "\<not> complete (base c)"
    and "\<forall>t\<in>set ws. tok_type t = Whitespace" and "p_index s = length pre"
  shows "Parser_loop (pre @ ws @ post) s =
         Parser_loop (pre @ ws @ post) (s\<lparr>p_index := length pre + length ws\<rparr>)"
  using assms
proof (induction ws arbitrary: pre s)
  case Nil
  have "s\<lparr>p_index := length pre\<rparr> = s"
    using Nil.prems(5) [symmetric] by simp
  then show ?case by simp
next
  case (Cons w ws)
  have tok: "(pre @ (w # ws) @ post) ! p_index s = w"
    using Cons.prems(5) by (simp add: nth_append)
  have "Parser_body (pre @ (w # ws) @ post) s = Inr (s\<lparr>p_index := p_index s + 1\<rparr>)"
    using Cons.prems tok by (intro Parser_body_skip [where c = c and rest = rest]) simp_all
  then have "Parser_loop (pre @ (w # ws) @ post) s =
      Parser_loop (pre @ (w # ws) @ post) (s\<lparr>p_index := p_index s + 1\<rparr>)"
    using Cons.prems(5) by (intro Parser_loop_step) simp_all
  also have "\<dots> = Parser_loop ((pre @ [w]) @ ws @ post) (s\<lparr>p_index := p_index s + 1\<rparr>)"
    by simp
  also have "\<dots> = Parser_loop ((pre @ [w]) @ ws @ post)
      (s\<lparr>p_index := p_index s + 1, p_index := length (pre @ [w]) + length ws\<rparr>)"
    using Cons.prems by (intro Cons.IH) simp_all
  finally show ?case by simp
qed

text \<open>Skip the whitespace before a token, then run the body on the token.\<close>

lemma Parser_loop_feed:
  assumes "collectorStack s = c # rest" and "skipWhitespace (base c)" and "\<not> complete (base c)"
    and "\<forall>t\<in>set ws. tok_type t = Whitespace" and "p_index s = length pre"
    and "Parser_body (pre @ ws @ t # post) (s\<lparr>p_index := length pre + length ws\<rparr>) = Inr s'"
  shows "Parser_loop (pre @ ws @ t # post) s = Parser_loop (pre @ ws @ t # post) s'"
proof -
  have "Parser_loop (pre @ ws @ t # post) s =
      Parser_loop (pre @ ws @ t # post) (s\<lparr>p_index := length pre + length ws\<rparr>)"
    using assms(1-5) by (rule Parser_loop_skip)
  also have "\<dots> = Parser_loop (pre @ ws @ t # post) s'"
    using assms(6) by (intro Parser_loop_step) simp_all
  finally show ?thesis .
qed

lemma Parser_loop_feed_error:
  assumes "collectorStack s = c # rest" and "skipWhitespace (base c)" and "\<not> complete (base c)"
    and "\<forall>t\<in>set ws. tok_type t = Whitespace" and "p_index s = length pre"
    and "Parser_body (pre @ ws @ t # post) (s\<lparr>p_index := length pre + length ws\<rparr>) = Inl e"
  shows "Parser_loop (pre @ ws @ t # post) s = Inl e"
proof -
  have "Parser_loop (pre @ ws @ t # post) s =
      Parser_loop (pre @ ws @ t # post) (s\<lparr>p_index := length pre + length ws\<rparr>)"
    using assms(1-5) by (rule Parser_loop_skip)
  also have "\<dots> = Inl e"
    using assms(6) by (subst Parser_loop.simps) simp
  finally show ?thesis .
qed

lemma nth_mid: "(pre @ ws @ t # post) ! (length pre + length ws) = t"
  by (simp add: nth_append)

text \<open>When only whitespace is left, the tree does not change any more.\<close>

lemma Parser_loop_trailing:
  assumes "\<forall>j. p_index s \<le> j \<and> j < length tokens \<longrightarrow> tok_type (tokens ! j) = Whitespace"
    and "collectorStack s = [] \<or>
         (\<exists>c rest. collectorStack s = c # rest \<and> skipWhitespace (base c) \<and> \<not> complete (base c))"
  shows "\<exists>s'. Parser_loop tokens s = Inr s' \<and> ast s' = ast s"
  using assms
proof (induction tokens s rule: Parser_loop.induct)
  case (1 tokens s)
  show ?case
  proof (cases "p_index s < length tokens")
    case False
    then show ?thesis by (simp add: Parser_loop.simps)
  next
    case True
    then have ws: "tok_type (tokens ! p_index s) = Whitespace"
      using "1.prems"(1) by simp
    have "\<exists>s1. Parser_body tokens s = Inr s1 \<and> ast s1 = ast s \<and> p_index s \<le> p_index s1 \<and>
        (collectorStack s1 = [] \<or>
         (\<exists>c rest. collectorStack s1 = c # rest \<and> skipWhitespace (base c) \<and> \<not> complete (base c)))"
    proof (cases "collectorStack s")
      case Nil
      then show ?thesis
        by (simp add: Parser_body_def Let_def new_AliasStatementCollector_def new_CollectorBase_def)
    next
      case (Cons c rest)
      with "1.prems"(2) have "skipWhitespace (base c)" "\<not> complete (base c)" by simp_all
      with Cons ws show ?thesis
        by (simp add: Parser_body_skip [where c = c and rest = rest])
    qed
    then obtain s1 where b: "Parser_body tokens s = Inr s1" and a: "ast s1 = ast s"
      and i: "p_index s \<le> p_index s1"
      and st: "collectorStack s1 = [] \<or>
         (\<exists>c rest. collectorStack s1 = c # rest \<and> skipWhitespace (base c) \<and> \<not> complete (base c))"
      by blast
    have "\<forall>j. p_index s1 \<le> j \<and> j < length tokens \<longrightarrow> tok_type (tokens ! j) = Whitespace"
      using "1.prems"(1) i by auto
    from "1.IH" [OF True b this st] a True b show ?thesis
      by (subst Parser_loop.simps) simp
  qed
qed

lemma Parser_loop_trailing_append:
  assumes "T = pre @ ws" and "\<forall>u\<in>set ws. tok_type u = Whitespace" and "p_index s = length pre"
    and "collectorStack s = []"
  shows "\<exists>s'. Parser_loop T s = Inr s' \<and> ast s' = ast s"
proof (rule Parser_loop_trailing)
  show "\<forall>j. p_index s \<le> j \<and> j < length T \<longrightarrow> tok_type (T ! j) = Whitespace"
    using assms(2) by (auto simp: assms(1,3) nth_append)
qed (simp add: assms(4))

lemma alias_start:
  assumes "tok_value t0 = str ''alias''" and "tok_type t0 \<noteq> Whitespace"
  shows "Parser_loop (t0 # rest) new_Parser =
         Parser_loop (t0 # rest)
           \<lparr>p_index = length [t0], ast = Program [],
            collectorStack = [alias_at [t0] 1
              (AliasStatement (AliasLiteral []) (PackedStatement [] (StringLiteral [])))]\<rparr>"
proof -
  have "Parser_loop (t0 # rest) new_Parser =
      Parser_loop (t0 # rest) (new_Parser\<lparr>collectorStack := [new_AliasStatementCollector]\<rparr>)"
    using assms by (intro Parser_loop_step) (simp_all add: Parser_body_def new_Parser_def Let_def)
  also have "\<dots> = Parser_loop (t0 # rest)
           \<lparr>p_index = length [t0], ast = Program [],
            collectorStack = [alias_at [t0] 1
              (AliasStatement (AliasLiteral []) (PackedStatement [] (StringLiteral [])))]\<rparr>"
    using assms
    by (intro Parser_loop_step)
      (simp_all add: Parser_body_def new_Parser_def Let_def Collector_next_def alias_at_def
        new_AliasStatementCollector_def new_CollectorBase_def)
  finally show ?thesis .
qed

lemma alias_stage:
  assumes "T = pre @ ws @ t # post" and "\<forall>x\<in>set ws. tok_type x = Whitespace"
    and "tok_type t \<noteq> Whitespace" and "k = 1 \<or> k = 2 \<or> k = 3 \<or> k = 4"
    and "(ruleList (alias_at toks k n) ! k) t = Bool True"
  shows "Parser_loop T \<lparr>p_index = length pre, ast = a,
            collectorStack = alias_at toks k n # below\<rparr> =
         Parser_loop T \<lparr>p_index = length (pre @ ws @ [t]), ast = a,
            collectorStack = alias_at (toks @ [t]) (Suc k) n # below\<rparr>"
  unfolding assms(1)
proof (rule Parser_loop_feed [where c = "alias_at toks k n" and rest = below])
  show "Parser_body (pre @ ws @ t # post)
     (\<lparr>p_index = length pre, ast = a, collectorStack = alias_at toks k n # below\<rparr>
      \<lparr>p_index := length pre + length ws\<rparr>) =
    Inr \<lparr>p_index = length (pre @ ws @ [t]), ast = a,
           collectorStack = alias_at (toks @ [t]) (Suc k) n # below\<rparr>"
    using assms(3,4,5)
    by (elim disjE) (simp_all add: Parser_body_def Collector_next_def Let_def nth_mid alias_at_def)
qed (use assms in \<open>simp_all add: alias_at_def\<close>)

lemma alias_stage_error:
  assumes "T = pre @ ws @ t # post" and "\<forall>x\<in>set ws. tok_type x = Whitespace"
    and "tok_type t \<noteq> Whitespace" and "k = 1 \<or> k = 2 \<or> k = 3 \<or> k = 4"
    and "(ruleList (alias_at toks k n) ! k) t = Bool False"
  shows "Parser_loop T \<lparr>p_index = length pre, ast = a,
            collectorStack = alias_at toks k n # below\<rparr> = Inl Error"
  unfolding assms(1)
proof (rule Parser_loop_feed_error [where c = "alias_at toks k n" and rest = below])
  show "Parser_body (pre @ ws @ t # post)
     (\<lparr>p_index = length pre, ast = a, collectorStack = alias_at toks k n # below\<rparr>
      \<lparr>p_index := length pre + length ws\<rparr>) = Inl Error"
    using assms(3,4,5)
    by (elim disjE) (simp_all add: Parser_body_def Collector_next_def Let_def nth_mid alias_at_def)
qed (use assms in \<open>simp_all add: alias_at_def\<close>)

lemma string_open:
  assumes "T = pre @ ws @ t # post" and "\<forall>x\<in>set ws. tok_type x = Whitespace"
    and "tok_type t \<noteq> Whitespace" and "tok_value t = DoubleQuotationMark"
  shows "Parser_loop T \<lparr>p_index = length pre, ast = a,
            collectorStack = alias_at toks 5 n # below\<rparr> =
         Parser_loop T \<lparr>p_index = length (pre @ ws @ [t]), ast = a,
            collectorStack = string_at [t] 1 (StringLiteral []) # alias_at toks 5 n # below\<rparr>"
proof -
  have "Parser_loop T \<lparr>p_index = length pre, ast = a,
            collectorStack = alias_at toks 5 n # below\<rparr> =
        Parser_loop T \<lparr>p_index = length (pre @ ws), ast = a,
            collectorStack = new_StringLiteralCollector # alias_at toks 5 n # below\<rparr>"
    unfolding assms(1)
  proof (rule Parser_loop_feed [where c = "alias_at toks 5 n" and rest = below])
    show "Parser_body (pre @ ws @ t # post)
       (\<lparr>p_index = length pre, ast = a, collectorStack = alias_at toks 5 n # below\<rparr>
        \<lparr>p_index := length pre + length ws\<rparr>) =
      Inr \<lparr>p_index = length (pre @ ws), ast = a,
             collectorStack = new_StringLiteralCollector # alias_at toks 5 n # below\<rparr>"
      using assms(3)
      by (simp add: Parser_body_def Collector_next_def Let_def nth_mid alias_at_def
          new_StringLiteralCollector_def new_CollectorBase_def)
  qed (use assms in \<open>simp_all add: alias_at_def\<close>)
  also have "\<dots> = Parser_loop T \<lparr>p_index = length (pre @ ws @ [t]), ast = a,
            collectorStack = string_at [t] 1 (StringLiteral []) # alias_at toks 5 n # below\<rparr>"
    using assms(3,4) nth_mid [of pre ws t post]
    by (intro Parser_loop_step)
      (simp_all add: assms(1) Parser_body_def Collector_next_def Let_def string_at_def
        new_StringLiteralCollector_def new_CollectorBase_def)
  finally show ?thesis .
qed

lemma string_stage:
  assumes "T = pre @ ws @ t # post" and "\<forall>x\<in>set ws. tok_type x = Whitespace"
    and "tok_type t = Word"
  shows "Parser_loop T \<lparr>p_index = length pre, ast = a,
            collectorStack = string_at toks 1 n # below\<rparr> =
         Parser_loop T \<lparr>p_index = length (pre @ ws @ [t]), ast = a,
            collectorStack = string_at (toks @ [t]) 2 n # below\<rparr>"
  unfolding assms(1)
proof (rule Parser_loop_feed [where c = "string_at toks 1 n" and rest = below])
  show "Parser_body (pre @ ws @ t # post)
     (\<lparr>p_index = length pre, ast = a, collectorStack = string_at toks 1 n # below\<rparr>
      \<lparr>p_index := length pre + length ws\<rparr>) =
    Inr \<lparr>p_index = length (pre @ ws @ [t]), ast = a,
           collectorStack = string_at (toks @ [t]) 2 n # below\<rparr>"
    using assms(3)
    by (simp add: Parser_body_def Collector_next_def Let_def nth_mid string_at_def)
qed (use assms in \<open>simp_all add: string_at_def\<close>)

lemma string_close:
  assumes "T = pre @ ws @ t # post" and "\<forall>x\<in>set ws. tok_type x = Whitespace"
    and "tok_type t \<noteq> Whitespace" and "tok_value t = DoubleQuotationMark"
  shows "Parser_loop T \<lparr>p_index = length pre, ast = a,
            collectorStack = string_at [q, w] 2 (StringLiteral old) #
              alias_at toks 5 (AliasStatement al (PackedStatement v (StringLiteral old'))) # below\<rparr> =
         Parser_loop T \<lparr>p_index = length (pre @ ws @ [t]), ast = a,
            collectorStack =
              alias_at toks 6 (AliasStatement al (PackedStatement v (StringLiteral (tok_value w)))) #
              below\<rparr>"
  unfolding assms(1)
proof (rule Parser_loop_feed [where c = "string_at [q, w] 2 (StringLiteral old)"
      and rest = "alias_at toks 5 (AliasStatement al (PackedStatement v (StringLiteral old'))) # below"])
  show "Parser_body (pre @ ws @ t # post)
     (\<lparr>p_index = length pre, ast = a,
            collectorStack = string_at [q, w] 2 (StringLiteral old) #
              alias_at toks 5 (AliasStatement al (PackedStatement v (StringLiteral old'))) # below\<rparr>
      \<lparr>p_index := length pre + length ws\<rparr>) =
    Inr \<lparr>p_index = length (pre @ ws @ [t]), ast = a,
            collectorStack =
              alias_at toks 6 (AliasStatement al (PackedStatement v (StringLiteral (tok_value w)))) #
              below\<rparr>"
    using assms(3,4)
    by (simp add: Parser_body_def Collector_next_def Let_def nth_mid string_at_def alias_at_def)
qed (use assms in \<open>simp_all add: string_at_def\<close>)

lemma alias_close:
  assumes "T = pre @ ws @ t # post" and "\<forall>x\<in>set ws. tok_type x = Whitespace"
    and "tok_type t = Sign" and "tok_value t = str '')''"
    and "tok_type t0 = Keyword" and "tok_type w1 = Word" and "tok_type h = Sign"
    and "tok_type w2 = Word" and "tok_type lp = Sign"
  shows "Parser_loop T \<lparr>p_index = length pre, ast = Program b,
            collectorStack =
              [alias_at [t0, w1, h, w2, lp] 6
                 (AliasStatement (AliasLiteral o1) (PackedStatement o2 sl))]\<rparr> =
         Parser_loop T \<lparr>p_index = length (pre @ ws @ [t]),
            ast = Program (b @ [AliasStatementNode
              (AliasStatement (AliasLiteral (tok_value w1)) (PackedStatement (tok_value w2) sl))]),
            collectorStack = []\<rparr>"
  unfolding assms(1)
proof (rule Parser_loop_feed [where c = "alias_at [t0, w1, h, w2, lp] 6
                 (AliasStatement (AliasLiteral o1) (PackedStatement o2 sl))" and rest = "[]"])
  show "Parser_body (pre @ ws @ t # post)
     (\<lparr>p_index = length pre, ast = Program b,
            collectorStack =
              [alias_at [t0, w1, h, w2, lp] 6
                 (AliasStatement (AliasLiteral o1) (PackedStatement o2 sl))]\<rparr>
      \<lparr>p_index := length pre + length ws\<rparr>) =
    Inr \<lparr>p_index = length (pre @ ws @ [t]),
            ast = Program (b @ [AliasStatementNode
              (AliasStatement (AliasLiteral (tok_value w1)) (PackedStatement (tok_value w2) sl))]),
            collectorStack = []\<rparr>"
    using assms(3-)
    by (simp add: Parser_body_def Collector_next_def Let_def nth_mid alias_at_def)
qed (use assms in \<open>simp_all add: alias_at_def\<close>)

lemma filter_ConsD:
  "filter P xs = y # ys \<Longrightarrow>
   \<exists>us vs. xs = us @ y # vs \<and> (\<forall>u\<in>set us. \<not> P u) \<and> P y \<and> filter P vs = ys"
  by (auto simp: filter_eq_Cons_iff)

lemma alias_prefix:
  assumes T: "T = t0 # ws1 @ w1 # ws2 @ h # ws3 @ w2 # r"
    and t0: "tok_value t0 = str ''alias''" "tok_type t0 = Keyword"
    and ws: "\<forall>x\<in>set ws1. tok_type x = Whitespace" "\<forall>x\<in>set ws2. tok_type x = Whitespace"
      "\<forall>x\<in>set ws3. tok_type x = Whitespace"
    and w1: "tok_type w1 = Word"
    and h: "tok_type h = Sign" "tok_value h = str ''#''"
    and w2: "tok_type w2 = Word"
  shows "Parser_loop T new_Parser =
         Parser_loop T
           \<lparr>p_index = length (t0 # ws1 @ w1 # ws2 @ h # ws3 @ [w2]), ast = Program [],
            collectorStack = [alias_at [t0, w1, h, w2] 4
              (AliasStatement (AliasLiteral []) (PackedStatement [] (StringLiteral [])))]\<rparr>"
proof -
  let ?n = "AliasStatement (AliasLiteral []) (PackedStatement [] (StringLiteral []))"
  have "Parser_loop T new_Parser =
      Parser_loop T \<lparr>p_index = length [t0], ast = Program [],
        collectorStack = [alias_at [t0] 1 ?n]\<rparr>"
    unfolding T using t0 by (intro alias_start) simp_all
  also have "\<dots> = Parser_loop T \<lparr>p_index = length ([t0] @ ws1 @ [w1]), ast = Program [],
        collectorStack = [alias_at ([t0] @ [w1]) (Suc 1) ?n]\<rparr>"
    using ws w1 by (intro alias_stage [where post = "ws2 @ h # ws3 @ w2 # r"]) (simp_all add: T alias_at_def)
  also have "\<dots> = Parser_loop T \<lparr>p_index = length (([t0] @ ws1 @ [w1]) @ ws2 @ [h]), ast = Program [],
        collectorStack = [alias_at (([t0] @ [w1]) @ [h]) (Suc (Suc 1)) ?n]\<rparr>"
    using ws h by (intro alias_stage [where post = "ws3 @ w2 # r"]) (simp_all add: T alias_at_def)
  also have "\<dots> = Parser_loop T
      \<lparr>p_index = length ((([t0] @ ws1 @ [w1]) @ ws2 @ [h]) @ ws3 @ [w2]), ast = Program [],
        collectorStack = [alias_at ((([t0] @ [w1]) @ [h]) @ [w2]) (Suc (Suc (Suc 1))) ?n]\<rparr>"
    using ws w2 by (intro alias_stage [where post = r]) (simp_all add: T alias_at_def)
  finally show ?thesis
    by (simp add: numeral_eq_Suc)
qed

lemma alias_accept:
  assumes T: "T = t0 # ws1 @ w1 # ws2 @ h # ws3 @ w2 # ws4 @ lp # ws5 @ q1 # ws6 @ w3 # ws7 @ q2 #
      ws8 @ rp # ws9"
    and t0: "tok_value t0 = str ''alias''" "tok_type t0 = Keyword"
    and ws: "\<forall>x\<in>set ws1. tok_type x = Whitespace" "\<forall>x\<in>set ws2. tok_type x = Whitespace"
      "\<forall>x\<in>set ws3. tok_type x = Whitespace"
    and ws': "\<forall>x\<in>set ws4. tok_type x = Whitespace" "\<forall>x\<in>set ws5. tok_type x = Whitespace"
      "\<forall>x\<in>set ws6. tok_type x = Whitespace" "\<forall>x\<in>set ws7. tok_type x = Whitespace"
      "\<forall>x\<in>set ws8. tok_type x = Whitespace" "\<forall>x\<in>set ws9. tok_type x = Whitespace"
    and w1: "tok_type w1 = Word"
    and h: "tok_type h = Sign" "tok_value h = str ''#''"
    and w2: "tok_type w2 = Word"
    and lp: "tok_type lp = Sign" "tok_value lp = str ''(''"
    and q1: "tok_type q1 = Sign" "tok_value q1 = DoubleQuotationMark"
    and w3: "tok_type w3 = Word"
    and q2: "tok_type q2 = Sign" "tok_value q2 = DoubleQuotationMark"
    and rp: "tok_type rp = Sign" "tok_value rp = str '')''"
  shows "parser T = Inr (Program [AliasStatementNode
           (AliasStatement (AliasLiteral (tok_value w1))
              (PackedStatement (tok_value w2) (StringLiteral (tok_value w3))))])"
proof -
  let ?n = "AliasStatement (AliasLiteral []) (PackedStatement [] (StringLiteral []))"
  let ?p4 = "t0 # ws1 @ w1 # ws2 @ h # ws3 @ [w2]"
  let ?p5 = "?p4 @ ws4 @ [lp]"
  let ?p6 = "?p5 @ ws5 @ [q1]"
  let ?p7 = "?p6 @ ws6 @ [w3]"
  let ?p8 = "?p7 @ ws7 @ [q2]"
  let ?p9 = "?p8 @ ws8 @ [rp]"
  let ?res = "Program [AliasStatementNode
           (AliasStatement (AliasLiteral (tok_value w1))
              (PackedStatement (tok_value w2) (StringLiteral (tok_value w3))))]"
  have "Parser_loop T new_Parser =
      Parser_loop T \<lparr>p_index = length ?p4, ast = Program [],
        collectorStack = [alias_at [t0, w1, h, w2] 4 ?n]\<rparr>"
    using T t0 ws w1 h w2
    by (rule alias_prefix [where r = "ws4 @ lp # ws5 @ q1 # ws6 @ w3 # ws7 @ q2 # ws8 @ rp # ws9"])
  also have "\<dots> = Parser_loop T \<lparr>p_index = length ?p5, ast = Program [],
        collectorStack = [alias_at ([t0, w1, h, w2] @ [lp]) (Suc 4) ?n]\<rparr>"
    using ws' lp
    by (intro alias_stage [where post = "ws5 @ q1 # ws6 @ w3 # ws7 @ q2 # ws8 @ rp # ws9"])
      (simp_all add: T alias_at_def)
  also have "\<dots> = Parser_loop T \<lparr>p_index = length ?p5, ast = Program [],
        collectorStack = [alias_at [t0, w1, h, w2, lp] 5 ?n]\<rparr>"
    by simp
  also have "\<dots> = Parser_loop T \<lparr>p_index = length ?p6, ast = Program [],
        collectorStack = [string_at [q1] 1 (StringLiteral []), alias_at [t0, w1, h, w2, lp] 5 ?n]\<rparr>"
    using ws' q1
    by (intro string_open [where post = "ws6 @ w3 # ws7 @ q2 # ws8 @ rp # ws9"]) (simp_all add: T)
  also have "\<dots> = Parser_loop T \<lparr>p_index = length ?p7, ast = Program [],
        collectorStack = [string_at ([q1] @ [w3]) 2 (StringLiteral []),
          alias_at [t0, w1, h, w2, lp] 5 ?n]\<rparr>"
    using ws' w3
    by (intro string_stage [where post = "ws7 @ q2 # ws8 @ rp # ws9"]) (simp_all add: T)
  also have "\<dots> = Parser_loop T \<lparr>p_index = length ?p7, ast = Program [],
        collectorStack = [string_at [q1, w3] 2 (StringLiteral []),
          alias_at [t0, w1, h, w2, lp] 5 ?n]\<rparr>"
    by simp
  also have "\<dots> = Parser_loop T \<lparr>p_index = length ?p8, ast = Program [],
        collectorStack = [alias_at [t0, w1, h, w2, lp] 6
          (AliasStatement (AliasLiteral []) (PackedStatement [] (StringLiteral (tok_value w3))))]\<rparr>"
    using ws' q2
    by (intro string_close [where post = "ws8 @ rp # ws9"]) (simp_all add: T)
  also have "\<dots> = Parser_loop T \<lparr>p_index = length ?p9, ast = Program ([] @ [AliasStatementNode
           (AliasStatement (AliasLiteral (tok_value w1))
              (PackedStatement (tok_value w2) (StringLiteral (tok_value w3))))]),
        collectorStack = []\<rparr>"
    using ws' rp t0 w1 h w2 lp
    by (intro alias_close [where post = ws9]) (simp_all add: T)
  finally have run: "Parser_loop T new_Parser =
      Parser_loop T \<lparr>p_index = length ?p9, ast = ?res, collectorStack = []\<rparr>"
    by simp
  have "T = ?p9 @ ws9"
    by (simp add: T)
  then have "\<exists>s'. Parser_loop T \<lparr>p_index = length ?p9, ast = ?res, collectorStack = []\<rparr> = Inr s' \<and>
      ast s' = ast \<lparr>p_index = length ?p9, ast = ?res, collectorStack = []\<rparr>"
    using ws'(6) by (rule Parser_loop_trailing_append) simp_all
  with run show ?thesis
    by (auto simp: parser_def Parser_run_def)
qed

lemma alias_reject:
  assumes T: "T = t0 # ws1 @ w1 # ws2 @ h # ws3 @ w2 # ws4 @ x # r"
    and t0: "tok_value t0 = str ''alias''" "tok_type t0 = Keyword"
    and ws: "\<forall>x\<in>set ws1. tok_type x = Whitespace" "\<forall>x\<in>set ws2. tok_type x = Whitespace"
      "\<forall>x\<in>set ws3. tok_type x = Whitespace"
    and ws4: "\<forall>x\<in>set ws4. tok_type x = Whitespace"
    and w1: "tok_type w1 = Word"
    and h: "tok_type h = Sign" "tok_value h = str ''#''"
    and w2: "tok_type w2 = Word"
    and x: "tok_type x = Word" "tok_value x \<noteq> str ''(''"
  shows "parser T = Inl Error"
proof -
  let ?n = "AliasStatement (AliasLiteral []) (PackedStatement [] (StringLiteral []))"
  let ?p4 = "t0 # ws1 @ w1 # ws2 @ h # ws3 @ [w2]"
  have "Parser_loop T new_Parser =
      Parser_loop T \<lparr>p_index = length ?p4, ast = Program [],
        collectorStack = [alias_at [t0, w1, h, w2] 4 ?n]\<rparr>"
    using T t0 ws w1 h w2 by (rule alias_prefix [where r = "ws4 @ x # r"])
  also have "\<dots> = Inl Error"
    using ws4 x
    by (intro alias_stage_error [where post = r and ws = ws4 and t = x])
      (simp_all add: T alias_at_def)
  finally show ?thesis
    by (simp add: parser_def Parser_run_def)
qed

subsection \<open>The tree and the stack\<close>

lemma Parser_iterate_Suc_end:
  "Parser_iterate (Suc n) tokens s =
     (case Parser_iterate n tokens s of
        Inl e \<Rightarrow> Inl e
      | Inr u \<Rightarrow> if p_index u < length tokens then Parser_body tokens u else Inr u)"
proof (induction n arbitrary: s)
  case 0
  show ?case by (simp split: sum.splits)
next
  case (Suc n)
  show ?case
  proof (cases "p_index s < length tokens")
    case False
    then show ?thesis by simp
  next
    case True
    show ?thesis
    proof (cases "Parser_body tokens s")
      case (Inl e)
      with True show ?thesis by simp
    next
      case (Inr s1)
      have "Parser_iterate (Suc (Suc n)) tokens s = Parser_iterate (Suc n) tokens s1"
        using True Inr by simp
      also have "\<dots> = (case Parser_iterate n tokens s1 of
        Inl e \<Rightarrow> Inl e
      | Inr u \<Rightarrow> if p_index u < length tokens then Parser_body tokens u else Inr u)"
        by (rule Suc.IH)
      also have "Parser_iterate n tokens s1 = Parser_iterate (Suc n) tokens s"
        using True Inr by simp
      finally show ?thesis .
    qed
  qed
qed

text \<open>Only an iteration that empties the stack changes the tree.\<close>

lemma Parser_body_ast:
  assumes "Parser_body tokens u = Inr s'" and "collectorStack s' \<noteq> []"
  shows "ast s' = ast u"
  using assms
  by (auto simp: Parser_body_def Let_def split: list.splits sum.splits prod.splits option.splits
      if_splits)

lemma Parser_body_opens:
  assumes "Parser_body tokens u = Inr s'" and "collectorStack u = []"
    and "collectorStack s' \<noteq> []"
  shows "tok_value (tokens ! p_index u) = str ''alias''"
  using assms by (auto simp: Parser_body_def Let_def split: if_splits)

lemma last_top_level:
  assumes "Parser_iterate n tokens new_Parser = Inr s'" and "collectorStack s' \<noteq> []"
  shows "\<exists>k s. k < n \<and> Parser_iterate k tokens new_Parser = Inr s \<and> collectorStack s = [] \<and>
           p_index s < length tokens \<and> tok_value (tokens ! p_index s) = str ''alias'' \<and>
           (\<forall>j u. k < j \<and> j \<le> n \<and> Parser_iterate j tokens new_Parser = Inr u \<longrightarrow>
              collectorStack u \<noteq> []) \<and>
           ast s' = ast s"
  using assms
proof (induction n arbitrary: s')
  case 0
  then show ?case by (auto simp: new_Parser_def)
next
  case (Suc n)
  have "(case Parser_iterate n tokens new_Parser of
        Inl e \<Rightarrow> Inl e
      | Inr u \<Rightarrow> if p_index u < length tokens then Parser_body tokens u else Inr u) = Inr s'"
    using Suc.prems(1) by (simp only: Parser_iterate_Suc_end)
  then obtain u where u: "Parser_iterate n tokens new_Parser = Inr u"
    and step: "(if p_index u < length tokens then Parser_body tokens u else Inr u) = Inr s'"
    by (cases "Parser_iterate n tokens new_Parser") simp_all
  have here: "\<forall>j v. n < j \<and> j \<le> Suc n \<and> Parser_iterate j tokens new_Parser = Inr v \<longrightarrow>
      collectorStack v \<noteq> []"
  proof (intro allI impI)
    fix j v
    assume "n < j \<and> j \<le> Suc n \<and> Parser_iterate j tokens new_Parser = Inr v"
    then have "j = Suc n" and "Parser_iterate j tokens new_Parser = Inr v" by simp_all
    with Suc.prems show "collectorStack v \<noteq> []" by simp
  qed
  show ?case
  proof (cases "collectorStack u = []")
    case True
    with step Suc.prems(2) have lt: "p_index u < length tokens"
      and b: "Parser_body tokens u = Inr s'"
      by (auto split: if_splits)
    from Parser_body_ast [OF b Suc.prems(2)] Parser_body_opens [OF b True Suc.prems(2)]
      u True lt here
    show ?thesis
      by (intro exI [of _ n] exI [of _ u]) simp
  next
    case False
    from Suc.IH [OF u False] obtain k s where k: "k < n"
      and s: "Parser_iterate k tokens new_Parser = Inr s" "collectorStack s = []"
        "p_index s < length tokens" "tok_value (tokens ! p_index s) = str ''alias''"
      and stays: "\<forall>j v. k < j \<and> j \<le> n \<and> Parser_iterate j tokens new_Parser = Inr v \<longrightarrow>
          collectorStack v \<noteq> []"
      and a: "ast u = ast s"
      by blast
    have "ast s' = ast u"
    proof (cases "p_index u < length tokens")
      case True
      with step have "Parser_body tokens u = Inr s'" by simp
      then show ?thesis using Suc.prems(2) by (rule Parser_body_ast)
    next
      case False
      with step show ?thesis by simp
    qed
    with a have a': "ast s' = ast s" by simp
    have "\<forall>j v. k < j \<and> j \<le> Suc n \<and> Parser_iterate j tokens new_Parser = Inr v \<longrightarrow>
          collectorStack v \<noteq> []"
    proof (intro allI impI)
      fix j v
      assume h: "k < j \<and> j \<le> Suc n \<and> Parser_iterate j tokens new_Parser = Inr v"
      show "collectorStack v \<noteq> []"
      proof (cases "j \<le> n")
        case True
        with h stays show ?thesis by blast
      next
        case False
        with h have "n < j \<and> j \<le> Suc n \<and> Parser_iterate j tokens new_Parser = Inr v" by simp
        with here show ?thesis by blast
      qed
    qed
    with k s a' show ?thesis
      by (intro exI [of _ k] exI [of _ s]) simp
  qed
qed

section \<open>The alias statement of the specification\<close>

text \<open>
  C1 (as stated, refuted): the source text \<^verbatim>\<open>alias foo #1 bar("baz")\<close> does not parse.
  After \<^verbatim>\<open>#\<close> the grammar takes one Word, here \<^verbatim>\<open>1\<close>, and then requires \<^verbatim>\<open>(\<close>;
  the Word \<^verbatim>\<open>bar\<close> fails that rule and the collector throws.
\<close>

theorem alias_with_number_and_name_rejected:
  "parser (tokenizer (str ''alias foo #1 bar('' @ DoubleQuotationMark @ str ''baz'' @
      DoubleQuotationMark @ str '')'')) = Inl Error"
  by code_simp

text \<open>
  C1 (amended): the source text \<^verbatim>\<open>alias foo #bar("baz")\<close>, with the packed name
  directly after \<^verbatim>\<open>#\<close>, parses to a program of one alias statement with the alias
  literal \<^verbatim>\<open>foo\<close>, the packed statement \<^verbatim>\<open>bar\<close> and the string literal \<^verbatim>\<open>baz\<close>.
\<close>

theorem alias_statement_parsed:
  "parser (tokenizer (str ''alias foo #bar('' @ DoubleQuotationMark @ str ''baz'' @
      DoubleQuotationMark @ str '')'')) =
   Inr (Program [AliasStatementNode
     (AliasStatement (AliasLiteral (str ''foo''))
        (PackedStatement (str ''bar'') (StringLiteral (str ''baz''))))])"
  by code_simp

text \<open>
  C2: a token sequence that starts with a Keyword token of value \<^verbatim>\<open>alias\<close> and whose
  other tokens are, whitespace tokens apart, a Word, the Sign \<^verbatim>\<open>#\<close>, a Word, the
  Sign \<^verbatim>\<open>(\<close>, a double quote, a Word, a double quote and the Sign \<^verbatim>\<open>)\<close>, parses
  to one alias statement with the values of the three Words, the packed name being
  the Word directly after \<^verbatim>\<open>#\<close>. When a further Word (other than one spelled \<^verbatim>\<open>(\<close>)
  follows that Word, the parse fails with the collector's error.
\<close>

theorem alias_grammar:
  assumes "tok_value t0 = str ''alias''" and "tok_type t0 = Keyword"
    and "filter (\<lambda>t. tok_type t \<noteq> Whitespace) rest = w1 # h # w2 # tail"
    and "tok_type w1 = Word"
    and "tok_type h = Sign" and "tok_value h = str ''#''"
    and "tok_type w2 = Word"
  shows "(tail = [lp, q1, w3, q2, rp] \<and>
          tok_type lp = Sign \<and> tok_value lp = str ''('' \<and>
          tok_type q1 = Sign \<and> tok_value q1 = DoubleQuotationMark \<and>
          tok_type w3 = Word \<and>
          tok_type q2 = Sign \<and> tok_value q2 = DoubleQuotationMark \<and>
          tok_type rp = Sign \<and> tok_value rp = str '')'' \<longrightarrow>
          parser (t0 # rest) =
            Inr (Program [AliasStatementNode
              (AliasStatement (AliasLiteral (tok_value w1))
                 (PackedStatement (tok_value w2) (StringLiteral (tok_value w3))))])) \<and>
         (tail = x # others \<and> tok_type x = Word \<and> tok_value x \<noteq> str ''('' \<longrightarrow>
          parser (t0 # rest) = Inl Error)"
proof -
  let ?P = "\<lambda>t. tok_type t \<noteq> Whitespace"
  from filter_ConsD [OF assms(3)] obtain ws1 r1 where
    r0: "rest = ws1 @ w1 # r1" and ws1: "\<forall>u\<in>set ws1. tok_type u = Whitespace"
    and f1: "filter ?P r1 = h # w2 # tail" by auto
  from filter_ConsD [OF f1] obtain ws2 r2 where
    r1: "r1 = ws2 @ h # r2" and ws2: "\<forall>u\<in>set ws2. tok_type u = Whitespace"
    and f2: "filter ?P r2 = w2 # tail" by auto
  from filter_ConsD [OF f2] obtain ws3 r3 where
    r2: "r2 = ws3 @ w2 # r3" and ws3: "\<forall>u\<in>set ws3. tok_type u = Whitespace"
    and f3: "filter ?P r3 = tail" by auto
  have accept: "parser (t0 # rest) =
            Inr (Program [AliasStatementNode
              (AliasStatement (AliasLiteral (tok_value w1))
                 (PackedStatement (tok_value w2) (StringLiteral (tok_value w3))))])"
    if tail: "tail = [lp, q1, w3, q2, rp]"
      and lp: "tok_type lp = Sign" "tok_value lp = str ''(''"
      and q1: "tok_type q1 = Sign" "tok_value q1 = DoubleQuotationMark"
      and w3: "tok_type w3 = Word"
      and q2: "tok_type q2 = Sign" "tok_value q2 = DoubleQuotationMark"
      and rp: "tok_type rp = Sign" "tok_value rp = str '')''"
  proof -
    from f3 tail have f3': "filter ?P r3 = lp # [q1, w3, q2, rp]" by simp
    from filter_ConsD [OF f3'] obtain ws4 r4 where
      r3: "r3 = ws4 @ lp # r4" and ws4: "\<forall>u\<in>set ws4. tok_type u = Whitespace"
      and f4: "filter ?P r4 = q1 # [w3, q2, rp]" by auto
    from filter_ConsD [OF f4] obtain ws5 r5 where
      r4: "r4 = ws5 @ q1 # r5" and ws5: "\<forall>u\<in>set ws5. tok_type u = Whitespace"
      and f5: "filter ?P r5 = w3 # [q2, rp]" by auto
    from filter_ConsD [OF f5] obtain ws6 r6 where
      r5: "r5 = ws6 @ w3 # r6" and ws6: "\<forall>u\<in>set ws6. tok_type u = Whitespace"
      and f6: "filter ?P r6 = q2 # [rp]" by auto
    from filter_ConsD [OF f6] obtain ws7 r7 where
      r6: "r6 = ws7 @ q2 # r7" and ws7: "\<forall>u\<in>set ws7. tok_type u = Whitespace"
      and f7: "filter ?P r7 = rp # []" by auto
    from filter_ConsD [OF f7] obtain ws8 ws9 where
      r7: "r7 = ws8 @ rp # ws9" and ws8: "\<forall>u\<in>set ws8. tok_type u = Whitespace"
      and f8: "filter ?P ws9 = []" by auto
    from f8 have ws9: "\<forall>u\<in>set ws9. tok_type u = Whitespace"
      by (simp add: filter_empty_conv)
    have T: "t0 # rest = t0 # ws1 @ w1 # ws2 @ h # ws3 @ w2 # ws4 @ lp # ws5 @ q1 # ws6 @ w3 #
        ws7 @ q2 # ws8 @ rp # ws9"
      by (simp add: r0 r1 r2 r3 r4 r5 r6 r7)
    show ?thesis
      by (rule alias_accept [OF T assms(1,2) ws1 ws2 ws3 ws4 ws5 ws6 ws7 ws8 ws9 assms(4-7)
            lp q1 w3 q2 rp])
  qed
  have reject: "parser (t0 # rest) = Inl Error"
    if tail: "tail = x # others" and x: "tok_type x = Word" "tok_value x \<noteq> str ''(''"
  proof -
    from f3 tail have f3': "filter ?P r3 = x # others" by simp
    from filter_ConsD [OF f3'] obtain ws4 r4 where
      r3: "r3 = ws4 @ x # r4" and ws4: "\<forall>u\<in>set ws4. tok_type u = Whitespace" by auto
    have T: "t0 # rest = t0 # ws1 @ w1 # ws2 @ h # ws3 @ w2 # ws4 @ x # r4"
      by (simp add: r0 r1 r2 r3)
    show ?thesis
      by (rule alias_reject [OF T assms(1,2) ws1 ws2 ws3 ws4 assms(4-7) x])
  qed
  from accept reject show ?thesis
    by blast
qed

theorem alias_grammar_witness:
  "parser
     [token Keyword ''alias'' 0 0, token Whitespace ''  '' 5 1, token Word ''foo'' 7 2,
      token Sign ''#'' 10 3, token Whitespace '' '' 11 4, token Word ''bar'' 12 5,
      token Sign ''('' 15 6, (token Sign [] 16 7)\<lparr>tok_value := DoubleQuotationMark\<rparr>,
      token Whitespace '' '' 17 8, token Word ''baz'' 18 9,
      (token Sign [] 21 10)\<lparr>tok_value := DoubleQuotationMark\<rparr>, token Sign '')'' 22 11,
      token Whitespace '' '' 23 12] =
     Inr (Program [AliasStatementNode
       (AliasStatement (AliasLiteral (str ''foo''))
          (PackedStatement (str ''bar'') (StringLiteral (str ''baz''))))]) \<and>
   parser
     [token Keyword ''alias'' 0 0, token Whitespace '' '' 5 1, token Word ''foo'' 6 2,
      token Whitespace '' '' 9 3, token Sign ''#'' 10 4, token Word ''1'' 11 5,
      token Whitespace '' '' 12 6, token Word ''bar'' 13 7, token Sign ''('' 16 8,
      token Sign '')'' 17 9] = Inl Error"
proof -
  let ?q = "(token Sign [] 16 7)\<lparr>tok_value := DoubleQuotationMark\<rparr>"
  let ?q' = "(token Sign [] 21 10)\<lparr>tok_value := DoubleQuotationMark\<rparr>"
  have A: "parser
     (token Keyword ''alias'' 0 0 # [token Whitespace ''  '' 5 1, token Word ''foo'' 7 2,
      token Sign ''#'' 10 3, token Whitespace '' '' 11 4, token Word ''bar'' 12 5,
      token Sign ''('' 15 6, ?q, token Whitespace '' '' 17 8, token Word ''baz'' 18 9,
      ?q', token Sign '')'' 22 11, token Whitespace '' '' 23 12]) =
     Inr (Program [AliasStatementNode
       (AliasStatement (AliasLiteral (tok_value (token Word ''foo'' 7 2)))
          (PackedStatement (tok_value (token Word ''bar'' 12 5))
             (StringLiteral (tok_value (token Word ''baz'' 18 9)))))])"
    using alias_grammar [of "token Keyword ''alias'' 0 0"
        "[token Whitespace ''  '' 5 1, token Word ''foo'' 7 2,
          token Sign ''#'' 10 3, token Whitespace '' '' 11 4, token Word ''bar'' 12 5,
          token Sign ''('' 15 6, ?q, token Whitespace '' '' 17 8, token Word ''baz'' 18 9,
          ?q', token Sign '')'' 22 11, token Whitespace '' '' 23 12]"
        "token Word ''foo'' 7 2" "token Sign ''#'' 10 3" "token Word ''bar'' 12 5"
        "[token Sign ''('' 15 6, ?q, token Word ''baz'' 18 9, ?q', token Sign '')'' 22 11]"
        "token Sign ''('' 15 6" ?q "token Word ''baz'' 18 9" ?q' "token Sign '')'' 22 11"]
    by (simp add: token_def)
  have B: "parser
     (token Keyword ''alias'' 0 0 # [token Whitespace '' '' 5 1, token Word ''foo'' 6 2,
      token Whitespace '' '' 9 3, token Sign ''#'' 10 4, token Word ''1'' 11 5,
      token Whitespace '' '' 12 6, token Word ''bar'' 13 7, token Sign ''('' 16 8,
      token Sign '')'' 17 9]) = Inl Error"
    using alias_grammar [of "token Keyword ''alias'' 0 0"
        "[token Whitespace '' '' 5 1, token Word ''foo'' 6 2,
          token Whitespace '' '' 9 3, token Sign ''#'' 10 4, token Word ''1'' 11 5,
          token Whitespace '' '' 12 6, token Word ''bar'' 13 7, token Sign ''('' 16 8,
          token Sign '')'' 17 9]"
        "token Word ''foo'' 6 2" "token Sign ''#'' 10 4" "token Word ''1'' 11 5"
        "[token Word ''bar'' 13 7, token Sign ''('' 16 8, token Sign '')'' 17 9]"
        _ _ _ _ _ "token Word ''bar'' 13 7" "[token Sign ''('' 16 8, token Sign '')'' 17 9]"]
    by (simp add: token_def str_def)
  from A B show ?thesis
    by (simp add: token_def)
qed

section \<open>Errors of the parser\<close>

text \<open>
  C3 (as stated, refuted): on the tokens of \<^verbatim>\<open>alias foo\<close> the loop ends with a
  collector on the stack, and the parser returns the empty program instead of
  failing.
\<close>

theorem unfinished_statement_not_reported:
  "(case Parser_loop (tokenizer (str ''alias foo'')) new_Parser of
      Inl e \<Rightarrow> False
    | Inr s \<Rightarrow> collectorStack s \<noteq> [] \<and> length (tokenizer (str ''alias foo'')) \<le> p_index s) \<and>
   parser (tokenizer (str ''alias foo'')) = Inr (Program [])"
  by code_simp

text \<open>
  C3 (amended): when the driver reaches the end of the tokens while its collector
  stack is not empty, the parser does not fail. The stack was last empty in a state
  whose next token has the value \<^verbatim>\<open>alias\<close>, where the unfinished statement starts,
  and the parser returns the tree of that state: the statements completed before,
  without the unfinished statement.
\<close>

theorem end_of_tokens_returns_program:
  assumes "Parser_iterate n tokens new_Parser = Inr s'"
    and "length tokens \<le> p_index s'" and "collectorStack s' \<noteq> []"
  shows "\<exists>k s. k < n \<and> Parser_iterate k tokens new_Parser = Inr s \<and> collectorStack s = [] \<and>
           p_index s < length tokens \<and> tok_value (tokens ! p_index s) = str ''alias'' \<and>
           (\<forall>j u. k < j \<and> j \<le> n \<and> Parser_iterate j tokens new_Parser = Inr u \<longrightarrow>
              collectorStack u \<noteq> []) \<and>
           parser tokens = Inr (ast s)"
proof -
  have "Parser_loop tokens new_Parser = Parser_loop tokens s'"
    using assms(1) Parser_loop_iterate [of tokens new_Parser n] by simp
  also have "\<dots> = Inr s'"
    using assms(2) by (simp add: Parser_loop.simps)
  finally have p: "parser tokens = Inr (ast s')"
    by (simp add: parser_def Parser_run_def)
  from last_top_level [OF assms(1,3)] obtain k s where "k < n"
      "Parser_iterate k tokens new_Parser = Inr s" "collectorStack s = []"
      "p_index s < length tokens" "tok_value (tokens ! p_index s) = str ''alias''"
      "\<forall>j u. k < j \<and> j \<le> n \<and> Parser_iterate j tokens new_Parser = Inr u \<longrightarrow>
          collectorStack u \<noteq> []"
      "ast s' = ast s"
    by blast
  with p show ?thesis
    by (intro exI [of _ k] exI [of _ s]) simp
qed

theorem end_of_tokens_returns_program_witness:
  "Parser_iterate 18
     [token Keyword ''alias'' 0 0, token Whitespace '' '' 5 1, token Word ''a'' 6 2,
      token Whitespace '' '' 7 3, token Sign ''#'' 8 4, token Word ''b'' 9 5,
      token Sign ''('' 10 6, (token Sign [] 11 7)\<lparr>tok_value := DoubleQuotationMark\<rparr>,
      token Word ''c'' 12 8, (token Sign [] 13 9)\<lparr>tok_value := DoubleQuotationMark\<rparr>,
      token Sign '')'' 14 10, token Whitespace '' '' 15 11, token Keyword ''alias'' 16 12,
      token Whitespace '' '' 21 13, token Word ''d'' 22 14] new_Parser =
   Inr \<lparr>p_index = 15,
      ast = Program [AliasStatementNode
        (AliasStatement (AliasLiteral (str ''a''))
           (PackedStatement (str ''b'') (StringLiteral (str ''c''))))],
      collectorStack =
        [alias_at [token Keyword ''alias'' 16 12, token Word ''d'' 22 14] 2
           (AliasStatement (AliasLiteral []) (PackedStatement [] (StringLiteral [])))]\<rparr> \<and>
   (\<exists>k s. k < 18 \<and>
      Parser_iterate k
        [token Keyword ''alias'' 0 0, token Whitespace '' '' 5 1, token Word ''a'' 6 2,
      token Whitespace '' '' 7 3, token Sign ''#'' 8 4, token Word ''b'' 9 5,
      token Sign ''('' 10 6, (token Sign [] 11 7)\<lparr>tok_value := DoubleQuotationMark\<rparr>,
      token Word ''c'' 12 8, (token Sign [] 13 9)\<lparr>tok_value := DoubleQuotationMark\<rparr>,
      token Sign '')'' 14 10, token Whitespace '' '' 15 11, token Keyword ''alias'' 16 12,
      token Whitespace '' '' 21 13, token Word ''d'' 22 14] new_Parser = Inr s \<and>
      collectorStack s = [] \<and>
      p_index s < length
        [token Keyword ''alias'' 0 0, token Whitespace '' '' 5 1, token Word ''a'' 6 2,
      token Whitespace '' '' 7 3, token Sign ''#'' 8 4, token Word ''b'' 9 5,
      token Sign ''('' 10 6, (token Sign [] 11 7)\<lparr>tok_value := DoubleQuotationMark\<rparr>,
      token Word ''c'' 12 8, (token Sign [] 13 9)\<lparr>tok_value := DoubleQuotationMark\<rparr>,
      token Sign '')'' 14 10, token Whitespace '' '' 15 11, token Keyword ''alias'' 16 12,
      token Whitespace '' '' 21 13, token Word ''d'' 22 14] \<and>
      tok_value (
        [token Keyword ''alias'' 0 0, token Whitespace '' '' 5 1, token Word ''a'' 6 2,
      token Whitespace '' '' 7 3, token Sign ''#'' 8 4, token Word ''b'' 9 5,
      token Sign ''('' 10 6, (token Sign [] 11 7)\<lparr>tok_value := DoubleQuotationMark\<rparr>,
      token Word ''c'' 12 8, (token Sign [] 13 9)\<lparr>tok_value := DoubleQuotationMark\<rparr>,
      token Sign '')'' 14 10, token Whitespace '' '' 15 11, token Keyword ''alias'' 16 12,
      token Whitespace '' '' 21 13, token Word ''d'' 22 14] ! p_index s) = str ''alias'' \<and>
      (\<forall>j u. k < j \<and> j \<le> 18 \<and>
         Parser_iterate j
           [token Keyword ''alias'' 0 0, token Whitespace '' '' 5 1, token Word ''a'' 6 2,
      token Whitespace '' '' 7 3, token Sign ''#'' 8 4, token Word ''b'' 9 5,
      token Sign ''('' 10 6, (token Sign [] 11 7)\<lparr>tok_value := DoubleQuotationMark\<rparr>,
      token Word ''c'' 12 8, (token Sign [] 13 9)\<lparr>tok_value := DoubleQuotationMark\<rparr>,
      token Sign '')'' 14 10, token Whitespace '' '' 15 11, token Keyword ''alias'' 16 12,
      token Whitespace '' '' 21 13, token Word ''d'' 22 14] new_Parser = Inr u \<longrightarrow>
         collectorStack u \<noteq> []) \<and>
      parser
        [token Keyword ''alias'' 0 0, token Whitespace '' '' 5 1, token Word ''a'' 6 2,
      token Whitespace '' '' 7 3, token Sign ''#'' 8 4, token Word ''b'' 9 5,
      token Sign ''('' 10 6, (token Sign [] 11 7)\<lparr>tok_value := DoubleQuotationMark\<rparr>,
      token Word ''c'' 12 8, (token Sign [] 13 9)\<lparr>tok_value := DoubleQuotationMark\<rparr>,
      token Sign '')'' 14 10, token Whitespace '' '' 15 11, token Keyword ''alias'' 16 12,
      token Whitespace '' '' 21 13, token Word ''d'' 22 14] = Inr (ast s)) \<and>
   parser
     [token Keyword ''alias'' 0 0, token Whitespace '' '' 5 1, token Word ''a'' 6 2,
      token Whitespace '' '' 7 3, token Sign ''#'' 8 4, token Word ''b'' 9 5,
      token Sign ''('' 10 6, (token Sign [] 11 7)\<lparr>tok_value := DoubleQuotationMark\<rparr>,
      token Word ''c'' 12 8, (token Sign [] 13 9)\<lparr>tok_value := DoubleQuotationMark\<rparr>,
      token Sign '')'' 14 10, token Whitespace '' '' 15 11, token Keyword ''alias'' 16 12,
      token Whitespace '' '' 21 13, token Word ''d'' 22 14] =
   Inr (Program [AliasStatementNode
     (AliasStatement (AliasLiteral (str ''a''))
        (PackedStatement (str ''b'') (StringLiteral (str ''c''))))])"
proof -
  let ?X = "[token Keyword ''alias'' 0 0, token Whitespace '' '' 5 1, token Word ''a'' 6 2,
      token Whitespace '' '' 7 3, token Sign ''#'' 8 4, token Word ''b'' 9 5,
      token Sign ''('' 10 6, (token Sign [] 11 7)\<lparr>tok_value := DoubleQuotationMark\<rparr>,
      token Word ''c'' 12 8, (token Sign [] 13 9)\<lparr>tok_value := DoubleQuotationMark\<rparr>,
      token Sign '')'' 14 10, token Whitespace '' '' 15 11, token Keyword ''alias'' 16 12,
      token Whitespace '' '' 21 13, token Word ''d'' 22 14]"
  let ?S = "\<lparr>p_index = 15,
      ast = Program [AliasStatementNode
        (AliasStatement (AliasLiteral (str ''a''))
           (PackedStatement (str ''b'') (StringLiteral (str ''c''))))],
      collectorStack =
        [alias_at [token Keyword ''alias'' 16 12, token Word ''d'' 22 14] 2
           (AliasStatement (AliasLiteral []) (PackedStatement [] (StringLiteral [])))]\<rparr>"
  have h: "Parser_iterate 18 ?X new_Parser = Inr ?S"
    by code_simp
  have e: "length ?X \<le> p_index ?S"
    by simp
  have o: "collectorStack ?S \<noteq> []"
    by simp
  have p: "parser ?X = Inr (Program [AliasStatementNode
     (AliasStatement (AliasLiteral (str ''a''))
        (PackedStatement (str ''b'') (StringLiteral (str ''c''))))])"
    by code_simp
  from h end_of_tokens_returns_program [OF h e o] p show ?thesis
    by (intro conjI)
qed

text \<open>
  C8: when the driver, after any number of iterations, feeds a token that is not
  whitespace to the collector on top of its stack and the token fails the
  predicate at the collector's cursor, the parser ends with the collector's error:
  no program is returned.
\<close>

theorem mismatch_is_fatal:
  assumes "Parser_iterate n tokens new_Parser = Inr s" and "mismatch_at tokens s"
  shows "parser tokens = Inl Error"
proof -
  have "Parser_loop tokens new_Parser = Parser_loop tokens s"
    using assms(1) Parser_loop_iterate [of tokens new_Parser n] by simp
  with assms(2) show ?thesis
    by (simp add: parser_def Parser_run_def Parser_loop_mismatch)
qed

theorem mismatch_is_fatal_witness:
  "Parser_iterate 2 [token Keyword ''alias'' 0 0, token Sign ''('' 5 1] new_Parser =
     Inr \<lparr>p_index = 1, ast = Program [],
          collectorStack =
            [alias_at [token Keyword ''alias'' 0 0] 1
               (AliasStatement (AliasLiteral []) (PackedStatement [] (StringLiteral [])))]\<rparr> \<and>
   mismatch_at [token Keyword ''alias'' 0 0, token Sign ''('' 5 1]
     \<lparr>p_index = 1, ast = Program [],
      collectorStack =
        [alias_at [token Keyword ''alias'' 0 0] 1
           (AliasStatement (AliasLiteral []) (PackedStatement [] (StringLiteral [])))]\<rparr> \<and>
   parser [token Keyword ''alias'' 0 0, token Sign ''('' 5 1] = Inl Error"
proof -
  let ?X = "[token Keyword ''alias'' 0 0, token Sign ''('' 5 1]"
  let ?S = "\<lparr>p_index = 1, ast = Program [],
          collectorStack =
            [alias_at [token Keyword ''alias'' 0 0] 1
               (AliasStatement (AliasLiteral []) (PackedStatement [] (StringLiteral [])))]\<rparr>"
  have h1: "Parser_iterate 2 ?X new_Parser = Inr ?S"
    by code_simp
  have h2: "mismatch_at ?X ?S"
    by code_simp
  from h1 h2 mismatch_is_fatal [OF h1 h2] show ?thesis
    by simp
qed

text \<open>
  C9: a token sequence with no token of value \<^verbatim>\<open>alias\<close> parses, without error, to
  the program with the empty body.
\<close>

theorem no_alias_empty_program:
  assumes "\<forall>t\<in>set tokens. tok_value t \<noteq> str ''alias''"
  shows "parser tokens = Inr (Program [])"
  using Parser_loop_top_level [of new_Parser tokens] assms
  by (auto simp: parser_def Parser_run_def new_Parser_def)

theorem no_alias_empty_program_witness:
  "str ''alias'' \<notin> set (map tok_value (tokenizer (str ''foo #bar(x) end''))) \<and>
   parser (tokenizer (str ''foo #bar(x) end'')) = Inr (Program [])"
proof -
  have h: "str ''alias'' \<notin> set (map tok_value (tokenizer (str ''foo #bar(x) end'')))"
    by code_simp
  then have "\<forall>t\<in>set (tokenizer (str ''foo #bar(x) end'')). tok_value t \<noteq> str ''alias''"
    unfolding set_map by (intro ballI notI) (erule notE, erule subst, erule imageI)
  from h no_alias_empty_program [OF this] show ?thesis
    by (rule conjI)
qed

section \<open>The scanner loop\<close>

declare run_loop.simps [simp del]

lemma kind_not_Keyword [simp]: "kind c \<noteq> Keyword"
  by (simp add: kind_def)

lemma run_loop_invariant:
  assumes "P s" and "\<And>s. P s \<Longrightarrow> index s < length (input s) \<Longrightarrow> P (run_body s)"
  shows "P (run_loop s)"
  using assms(1)
proof (induction s rule: run_loop.induct)
  case (1 s)
  show ?case
  proof (cases "index s < length (input s)")
    case True
    with 1 assms(2) show ?thesis
      by (subst run_loop.simps) simp
  next
    case False
    with "1.prems" show ?thesis
      by (subst run_loop.simps) simp
  qed
qed

lemma run_body_newline:
  assumes "index s < length (input s)" and "isNewLine [input s ! index s]"
  obtains w where "w = 1 \<or> w = 2" and "index s + w \<le> length (input s)"
    and "\<forall>j. index s \<le> j \<and> j < index s + w \<longrightarrow> isNewLine [input s ! j]"
    and "run_body s =
           s\<lparr>position_line := position_line s + 1, position_col := 0,
             index := index s + w, lastToken := None\<rparr>"
proof (cases "[input s ! index s] \<noteq> getSafeString (input s) (index s + 1) \<and>
    isNewLine (getSafeString (input s) (index s + 1))")
  case True
  then have lt: "index s + 1 < length (input s)"
    by (auto simp: getSafeString_def isNewLine_def split: if_splits)
  with True have nl: "isNewLine [input s ! (index s + 1)]"
    by (simp add: getSafeString_def)
  have "\<forall>j. index s \<le> j \<and> j < index s + 2 \<longrightarrow> isNewLine [input s ! j]"
  proof (intro allI impI)
    fix j assume "index s \<le> j \<and> j < index s + 2"
    then have "j = index s \<or> j = index s + 1" by arith
    with assms(2) nl show "isNewLine [input s ! j]" by auto
  qed
  moreover have "run_body s =
           s\<lparr>position_line := position_line s + 1, position_col := 0,
             index := index s + 2, lastToken := None\<rparr>"
    using True assms by (simp add: run_body_def pushNewLine_def Let_def)
  ultimately show ?thesis
    using lt that [of 2] by simp
next
  case False
  have "\<forall>j. index s \<le> j \<and> j < index s + 1 \<longrightarrow> isNewLine [input s ! j]"
  proof (intro allI impI)
    fix j assume "index s \<le> j \<and> j < index s + 1"
    then have "j = index s" by arith
    with assms(2) show "isNewLine [input s ! j]" by simp
  qed
  moreover have "run_body s =
           s\<lparr>position_line := position_line s + 1, position_col := 0,
             index := index s + 1, lastToken := None\<rparr>"
    using False assms by (simp add: run_body_def pushNewLine_def Let_def)
  ultimately show ?thesis
    using assms(1) that [of 1] by simp
qed

lemma run_body_pushToken:
  "\<not> isNewLine [input s ! index s] \<Longrightarrow>
   run_body s = pushToken (kind [input s ! index s]) [input s ! index s] s"
  by (simp add: run_body_def kind_def)

lemma run_body_first:
  assumes "\<not> isNewLine [input s ! index s]" and "lastToken s = None"
  shows "run_body s =
           s\<lparr>lastToken := Some (length (tokenList s)),
             tokenList := tokenList s @ [fresh_token s],
             position_col := position_col s + 1, index := index s + 1\<rparr>"
  using assms by (simp add: run_body_pushToken pushToken_def fresh_token_def Let_def)

lemma run_body_extend:
  assumes "\<not> isNewLine [input s ! index s]" and "lastToken s = Some (length bl)"
    and "tokenList s = bl @ [x]" and "tok_type x = kind [input s ! index s]"
    and "kind [input s ! index s] = Whitespace \<or> kind [input s ! index s] = Word"
  shows "run_body s =
           s\<lparr>tokenList := bl @ [x\<lparr>tok_value := tok_value x @ [input s ! index s],
                                   tok_end := tok_end x + 1\<rparr>],
             index := index s + 1\<rparr>"
  using assms by (auto simp: run_body_pushToken pushToken_def Let_def)

lemma run_body_fresh:
  assumes "\<not> isNewLine [input s ! index s]" and "lastToken s = Some (length bl)"
    and "tokenList s = bl @ [x]"
    and "\<not> (tok_type x = kind [input s ! index s] \<and>
             (kind [input s ! index s] = Whitespace \<or> kind [input s ! index s] = Word))"
  shows "run_body s =
           s\<lparr>lastToken := Some (length bl + 1),
             tokenList := bl @ [promote x, fresh_token s],
             position_col := position_col s + 1, index := index s + 1\<rparr>"
  using assms
  by (auto simp: run_body_pushToken pushToken_def fresh_token_def promote_def Let_def)

text \<open>The four ways an iteration can go, for a state that satisfies \<open>inv_last\<close>.\<close>

lemma run_body_cases [consumes 2, case_names newline first extend fresh]:
  assumes "inv_last s" and "index s < length (input s)"
  obtains
    (newline) w where "isNewLine [input s ! index s]" and "w = 1 \<or> w = 2"
      and "index s + w \<le> length (input s)"
      and "\<forall>j. index s \<le> j \<and> j < index s + w \<longrightarrow> isNewLine [input s ! j]"
      and "run_body s =
           s\<lparr>position_line := position_line s + 1, position_col := 0,
             index := index s + w, lastToken := None\<rparr>"
  | (first) "\<not> isNewLine [input s ! index s]" and "lastToken s = None"
      and "run_body s =
           s\<lparr>lastToken := Some (length (tokenList s)),
             tokenList := tokenList s @ [fresh_token s],
             position_col := position_col s + 1, index := index s + 1\<rparr>"
  | (extend) bl x where "\<not> isNewLine [input s ! index s]" and "lastToken s = Some (length bl)"
      and "tokenList s = bl @ [x]" and "tok_type x = kind [input s ! index s]"
      and "kind [input s ! index s] = Whitespace \<or> kind [input s ! index s] = Word"
      and "tok_end x = index s" and "tok_line x = position_line s"
      and "0 < index s" and "tok_type x = kind [input s ! (index s - 1)]"
      and "run_body s =
           s\<lparr>tokenList := bl @ [x\<lparr>tok_value := tok_value x @ [input s ! index s],
                                   tok_end := tok_end x + 1\<rparr>],
             index := index s + 1\<rparr>"
  | (fresh) bl x where "\<not> isNewLine [input s ! index s]" and "lastToken s = Some (length bl)"
      and "tokenList s = bl @ [x]"
      and "\<not> (tok_type x = kind [input s ! index s] \<and>
             (kind [input s ! index s] = Whitespace \<or> kind [input s ! index s] = Word))"
      and "tok_end x = index s" and "tok_line x = position_line s"
      and "0 < index s" and "tok_type x = kind [input s ! (index s - 1)]"
      and "run_body s =
           s\<lparr>lastToken := Some (length bl + 1),
             tokenList := bl @ [promote x, fresh_token s],
             position_col := position_col s + 1, index := index s + 1\<rparr>"
proof (cases "isNewLine [input s ! index s]")
  case True
  from run_body_newline [OF assms(2) True] newline True show ?thesis
    by blast
next
  case nl: False
  show ?thesis
  proof (cases "lastToken s")
    case None
    with nl first run_body_first show ?thesis by blast
  next
    case (Some k)
    with assms(1) have ne: "tokenList s \<noteq> []" and k: "k = length (tokenList s) - 1"
      and facts: "0 < index s" "tok_end (last (tokenList s)) = index s"
        "tok_line (last (tokenList s)) = position_line s"
        "tok_type (last (tokenList s)) = kind [input s ! (index s - 1)]"
      by (simp_all add: inv_last_def)
    from ne obtain bl x where ts: "tokenList s = bl @ [x]"
      by (metis rev_exhaust)
    with k Some have lt: "lastToken s = Some (length bl)" by simp
    from facts ts have fx: "tok_end x = index s" "tok_line x = position_line s"
      "tok_type x = kind [input s ! (index s - 1)]" by simp_all
    show ?thesis
    proof (cases "tok_type x = kind [input s ! index s] \<and>
             (kind [input s ! index s] = Whitespace \<or> kind [input s ! index s] = Word)")
      case True
      then show ?thesis
        using extend [OF nl lt ts _ _ fx(1,2) facts(1) fx(3)] run_body_extend [OF nl lt ts]
        by blast
    next
      case False
      then show ?thesis
        using fresh [OF nl lt ts _ fx(1,2) facts(1) fx(3)] run_body_fresh [OF nl lt ts]
        by blast
    qed
  qed
qed

lemma inv_last_run_body:
  assumes "inv_last s" and "index s < length (input s)"
  shows "inv_last (run_body s)"
  using assms
proof (cases rule: run_body_cases)
  case (newline w)
  have "isNewLine [input s ! (index s + w - 1)]"
    using newline(2,4) by auto
  with newline show ?thesis
    by (simp add: inv_last_def)
next
  case first
  with assms show ?thesis
    by (simp add: inv_last_def fresh_token_def)
next
  case (extend bl x)
  with assms show ?thesis
    by (simp add: inv_last_def)
next
  case (fresh bl x)
  with assms show ?thesis
    by (simp add: inv_last_def fresh_token_def)
qed

lemma inv_last_init: "inv_last (new_Tokenizer\<lparr>input := inp\<rparr>)"
  by (simp add: inv_last_def new_Tokenizer_def)

lemma run_loop_invariant_last:
  assumes "inv_last s" and "Q s"
    and "\<And>s. inv_last s \<Longrightarrow> Q s \<Longrightarrow> index s < length (input s) \<Longrightarrow> Q (run_body s)"
  shows "Q (run_loop s)"
proof -
  have "inv_last (run_loop s) \<and> Q (run_loop s)"
    by (rule run_loop_invariant [where P = "\<lambda>s. inv_last s \<and> Q s"])
      (simp_all add: assms inv_last_run_body)
  then show ?thesis ..
qed

lemma run_loop_done: "length (input (run_loop s)) \<le> index (run_loop s)"
proof (induction s rule: run_loop.induct)
  case (1 s)
  then show ?case
    by (subst (1 2) run_loop.simps) simp
qed

lemma input_run_loop: "input (run_loop s) = input s"
  by (rule run_loop_invariant [where P = "\<lambda>t. input t = input s"]) (simp_all add: input_run_body)

lemma index_run_loop:
  assumes "inv_last s"
  shows "index (run_loop s) = length (input s)"
proof -
  have "inv_last (run_loop s)"
    using assms by (rule run_loop_invariant) (rule inv_last_run_body)
  then have "index (run_loop s) \<le> length (input (run_loop s))"
    by (simp add: inv_last_def)
  with run_loop_done [of s] show ?thesis
    by (simp add: input_run_loop)
qed

subsection \<open>The text of the tokens\<close>

lemma filter_take_skip:
  assumes "\<forall>j. i \<le> j \<and> j < i + w \<longrightarrow> \<not> P (xs ! j)" and "i + w \<le> length xs"
  shows "filter P (take (i + w) xs) = filter P (take i xs)"
proof -
  have "\<forall>x\<in>set (take w (drop i xs)). \<not> P x"
  proof
    fix x assume "x \<in> set (take w (drop i xs))"
    then obtain k where "k < length (take w (drop i xs))" and "x = take w (drop i xs) ! k"
      by (auto simp: in_set_conv_nth)
    then have "k < w" and "x = xs ! (i + k)"
      using assms(2) by simp_all
    with assms(1) show "\<not> P x" by simp
  qed
  then have "filter P (take w (drop i xs)) = []"
    by (simp add: filter_empty_conv)
  then show ?thesis
    by (simp add: take_add)
qed

lemma tok_value_promote [simp]: "tok_value (promote x) = tok_value x"
  by (simp add: promote_def)

lemma inv_text_run_body:
  assumes "inv_last s" and "inv_text s" and "index s < length (input s)"
  shows "inv_text (run_body s)"
  using assms(1,3)
proof (cases rule: run_body_cases)
  case (newline w)
  have "filter (\<lambda>c. \<not> isNewLine [c]) (take (index s + w) (input s)) =
      filter (\<lambda>c. \<not> isNewLine [c]) (take (index s) (input s))"
    using newline(4,3) by (intro filter_take_skip) simp_all
  with assms(2) newline(5) show ?thesis
    by (simp add: inv_text_def)
next
  case first
  with assms show ?thesis
    by (simp add: inv_text_def fresh_token_def take_Suc_conv_app_nth)
next
  case (extend bl x)
  with assms show ?thesis
    by (simp add: inv_text_def take_Suc_conv_app_nth)
next
  case (fresh bl x)
  with assms show ?thesis
    by (simp add: inv_text_def fresh_token_def take_Suc_conv_app_nth)
qed

text \<open>
  C6: the texts of the tokens returned by the tokenizer, concatenated in order, are
  the input without its line-break characters (LF and CR).
\<close>

theorem tokens_spell_input:
  "concat (map tok_value (tokenizer inp)) = filter (\<lambda>c. \<not> isNewLine [c]) inp"
proof -
  let ?s = "new_Tokenizer\<lparr>input := inp\<rparr>"
  have "inv_text (run_loop ?s)"
    by (rule run_loop_invariant_last [OF inv_last_init])
      (simp_all add: inv_text_def new_Tokenizer_def inv_text_run_body [unfolded inv_text_def])
  then show ?thesis
    by (simp add: inv_text_def tokenizer_def run_def index_run_loop [OF inv_last_init]
        input_run_loop)
qed

subsection \<open>Line breaks\<close>

lemma position_line_pushToken [simp]: "position_line (pushToken ty c s) = position_line s"
  by (simp add: pushToken_def Let_def split: option.splits)

lemma index_pushToken [simp]: "index (pushToken ty c s) = index s + 1"
  by (simp add: pushToken_def Let_def split: option.splits)

lemma input_pushToken [simp]: "input (pushToken ty c s) = input s"
  by (simp add: pushToken_def Let_def split: option.splits)

lemma line_breaks_run_loop:
  "index s \<le> length (input s) \<Longrightarrow>
   position_line (run_loop s) = position_line s + line_breaks (drop (index s) (input s))"
proof (induction s rule: run_loop.induct)
  case (1 s)
  show ?case
  proof (cases "index s < length (input s)")
    case False
    with "1.prems" show ?thesis
      by (subst run_loop.simps) simp
  next
    case True
    let ?c = "input s ! index s"
    have d: "drop (index s) (input s) = ?c # drop (Suc (index s)) (input s)"
      using True by (simp add: Cons_nth_drop_Suc)
    have step: "position_line (run_body s) + line_breaks (drop (index (run_body s)) (input s)) =
        position_line s + line_breaks (drop (index s) (input s)) \<and>
        index (run_body s) \<le> length (input s)"
    proof (cases "index s + 1 < length (input s)")
      case False
      with True have e: "drop (Suc (index s)) (input s) = []" by simp
      from False True show ?thesis
        by (simp add: d e run_body_def pushNewLine_def getSafeString_def isNewLine_def Let_def)
    next
      case lt: True
      let ?n = "input s ! Suc (index s)"
      have d2: "drop (Suc (index s)) (input s) = ?n # drop (Suc (Suc (index s))) (input s)"
        using lt by (simp add: Cons_nth_drop_Suc)
      from lt True show ?thesis
        by (simp add: d d2 run_body_def pushNewLine_def getSafeString_def Let_def)
    qed
    have "position_line (run_loop s) = position_line (run_loop (run_body s))"
      using True by (subst run_loop.simps) simp
    also have "\<dots> = position_line (run_body s) +
        line_breaks (drop (index (run_body s)) (input (run_body s)))"
      using True step by (intro "1.IH") (simp_all add: input_run_body)
    finally show ?thesis
      using step by (simp add: input_run_body)
  qed
qed

text \<open>
  C5 (as stated, refuted): on an LF directly followed by a CR the scanner counts one
  line break, where the specification's rule (a lone LF, or a CR optionally followed
  by LF) counts two.
\<close>

theorem lf_cr_is_one_break:
  "position_line (run [lineFeed, carriageReturn] new_Tokenizer) = 1 \<and>
   spec_line_breaks [lineFeed, carriageReturn] = 2"
  by code_simp

text \<open>
  C5 (amended): the scanner treats a line-break character together with a different
  line-break character right after it (CR LF or LF CR) as one line break, and any
  other LF or CR as one line break: the line counter ends at \<open>line_breaks\<close> of the
  input. An iteration that reads a line break emits no token, adds one to the line
  counter and resets the column to 0.
\<close>

theorem line_breaks_counted:
  "position_line (run inp new_Tokenizer) = line_breaks inp \<and>
   (index s < length (input s) \<and> isNewLine [input s ! index s] \<longrightarrow>
      tokenList (run_body s) = tokenList s \<and>
      position_line (run_body s) = position_line s + 1 \<and>
      position_col (run_body s) = 0)"
proof
  show "position_line (run inp new_Tokenizer) = line_breaks inp"
    using line_breaks_run_loop [of "new_Tokenizer\<lparr>input := inp\<rparr>"]
    by (simp add: run_def new_Tokenizer_def)
next
  show "index s < length (input s) \<and> isNewLine [input s ! index s] \<longrightarrow>
      tokenList (run_body s) = tokenList s \<and>
      position_line (run_body s) = position_line s + 1 \<and>
      position_col (run_body s) = 0"
    by (simp add: run_body_def pushNewLine_def Let_def)
qed

theorem line_breaks_counted_witness:
  "position_line (run [carriageReturn, lineFeed, 97, lineFeed, carriageReturn] new_Tokenizer) = 2 \<and>
   tokenList (run_body (new_Tokenizer\<lparr>input := [carriageReturn, lineFeed]\<rparr>)) = [] \<and>
   position_line (run_body (new_Tokenizer\<lparr>input := [carriageReturn, lineFeed]\<rparr>)) = 1 \<and>
   position_col (run_body (new_Tokenizer\<lparr>input := [carriageReturn, lineFeed]\<rparr>)) = 0"
  using line_breaks_counted [of "[carriageReturn, lineFeed, 97, lineFeed, carriageReturn]"
      "new_Tokenizer\<lparr>input := [carriageReturn, lineFeed]\<rparr>"]
  by (simp add: new_Tokenizer_def isNewLine_def lineFeed_def carriageReturn_def)

subsection \<open>Keywords\<close>


lemma tok_line_promote [simp]: "tok_line (promote x) = tok_line x"
  by (simp add: promote_def)







subsection \<open>Characters and tokens\<close>

lemma classify_kind: "\<not> isNewLine c \<Longrightarrow> classify c = Some (kind c)"
  by (simp add: classify_def kind_def)

lemma classify_Some: "classify c = Some k \<Longrightarrow> \<not> isNewLine c \<and> k = kind c"
  by (auto simp: classify_def kind_def split: if_splits)

lemma isKeyword_kind: "isKeyword v \<Longrightarrow> c \<in> set v \<Longrightarrow> kind [c] = Word"
  by (auto simp: isKeyword_def Keyword_values_def str_def kind_def isWhitespace_def isSign_def
      Sign_values_def DoubleQuotationMark_def space_def)

lemma isKeyword_length: "isKeyword v \<Longrightarrow> 2 \<le> length v"
  by (auto simp: isKeyword_def Keyword_values_def str_def)

lemma isSign_kind: "isSign [c] \<Longrightarrow> kind [c] = Sign \<and> \<not> isNewLine [c]"
  by (auto simp: kind_def isWhitespace_def isSign_def isNewLine_def str_def
      Sign_values_def DoubleQuotationMark_def space_def lineFeed_def carriageReturn_def)

lemma tok_ok_fresh:
  assumes "index s < length (input s)" and "\<not> isNewLine [input s ! index s]"
  shows "tok_ok (input s) (fresh_token s)"
proof -
  have "take 1 (drop (index s) (input s)) = [input s ! index s]"
    using assms(1) by (simp add: take_Suc_conv_app_nth)
  with assms show ?thesis
    by (simp add: tok_ok_def fresh_token_def)
qed

lemma tok_ok_promote:
  assumes "tok_ok inp x"
  shows "tok_ok inp (promote x)"
proof (cases "isKeyword (tok_value x)")
  case True
  with assms show ?thesis
    by (auto simp: tok_ok_def promote_def isKeyword_kind)
next
  case False
  with assms show ?thesis
    by (simp add: promote_def)
qed

lemma tok_ok_extend:
  assumes "tok_ok inp x" and "tok_end x < length inp" and "\<not> isNewLine [inp ! tok_end x]"
    and "tok_type x = kind [inp ! tok_end x]"
  shows "tok_ok inp (x\<lparr>tok_value := tok_value x @ [inp ! tok_end x], tok_end := tok_end x + 1\<rparr>)"
proof -
  let ?n = "tok_end x - tok_start x"
  from assms(1) have lt: "tok_start x < tok_end x"
    and v: "tok_value x = take ?n (drop (tok_start x) inp)"
    and cs: "\<forall>c\<in>set (tok_value x).
         \<not> isNewLine [c] \<and> (tok_type x = kind [c] \<or> tok_type x = Keyword \<and> kind [c] = Word)"
    by (simp_all add: tok_ok_def)
  have n: "tok_end x + 1 - tok_start x = Suc ?n"
    using lt by simp
  have "?n < length (drop (tok_start x) inp)"
    using assms(2) lt by simp
  then have "take (Suc ?n) (drop (tok_start x) inp) =
      take ?n (drop (tok_start x) inp) @ [drop (tok_start x) inp ! ?n]"
    by (rule take_Suc_conv_app_nth)
  moreover have "drop (tok_start x) inp ! ?n = inp ! tok_end x"
    using assms(2) lt by simp
  ultimately have eq: "tok_value x @ [inp ! tok_end x] =
      take (tok_end x + 1 - tok_start x) (drop (tok_start x) inp)"
    using v n by simp
  have cs': "\<forall>c\<in>set (tok_value x @ [inp ! tok_end x]).
         \<not> isNewLine [c] \<and> (tok_type x = kind [c] \<or> tok_type x = Keyword \<and> kind [c] = Word)"
    using cs assms(3,4) by simp
  show ?thesis
    unfolding tok_ok_def
  proof (intro conjI)
    let ?x' = "x\<lparr>tok_value := tok_value x @ [inp ! tok_end x], tok_end := tok_end x + 1\<rparr>"
    show "tok_start ?x' < tok_end ?x'"
      using lt by simp
    show "tok_end ?x' \<le> length inp"
      using assms(2) by simp
    show "tok_value ?x' = take (tok_end ?x' - tok_start ?x') (drop (tok_start ?x') inp)"
      using eq by simp
    show "\<forall>c\<in>set (tok_value ?x').
         \<not> isNewLine [c] \<and> (tok_type ?x' = kind [c] \<or> tok_type ?x' = Keyword \<and> kind [c] = Word)"
      using cs' by simp
  qed
qed

lemma inv_tok_run_body:
  assumes "inv_last s" and "inv_tok s" and "index s < length (input s)"
  shows "inv_tok (run_body s)"
  using assms(1,3)
proof (cases rule: run_body_cases)
  case (newline w)
  with assms(2) show ?thesis
    by (simp add: inv_tok_def)
next
  case first
  with assms(2) tok_ok_fresh [OF assms(3)] show ?thesis
    by (simp add: inv_tok_def)
next
  case (extend bl x)
  from assms(2) extend(3) have x: "tok_ok (input s) x" and bl: "\<forall>t\<in>set bl. tok_ok (input s) t"
    by (simp_all add: inv_tok_def)
  have "tok_ok (input s)
      (x\<lparr>tok_value := tok_value x @ [input s ! tok_end x], tok_end := tok_end x + 1\<rparr>)"
    using x assms(3) extend(1,4,6) by (intro tok_ok_extend) simp_all
  with bl extend show ?thesis
    by (simp add: inv_tok_def)
next
  case (fresh bl x)
  from assms(2) fresh(3) have x: "tok_ok (input s) x" and bl: "\<forall>t\<in>set bl. tok_ok (input s) t"
    by (simp_all add: inv_tok_def)
  with tok_ok_promote [OF x] tok_ok_fresh [OF assms(3) fresh(1)] fresh show ?thesis
    by (simp add: inv_tok_def)
qed

text \<open>An iteration keeps every token's start and does not move its end back.\<close>

lemma tok_start_promote [simp]: "tok_start (promote x) = tok_start x"
  by (simp add: promote_def)

lemma tok_end_promote [simp]: "tok_end (promote x) = tok_end x"
  by (simp add: promote_def)

lemma run_body_grows:
  assumes "inv_last s" and "index s < length (input s)" and "t \<in> set (tokenList s)"
  shows "\<exists>t'\<in>set (tokenList (run_body s)). tok_start t' = tok_start t \<and> tok_end t \<le> tok_end t'"
  using assms(1,2)
proof (cases rule: run_body_cases)
  case (newline w)
  with assms(3) show ?thesis by auto
next
  case first
  with assms(3) show ?thesis by auto
next
  case (extend bl x)
  from assms(3) extend(3) have "t \<in> set bl \<or> t = x" by auto
  then show ?thesis
  proof
    assume "t \<in> set bl"
    with extend show ?thesis by auto
  next
    assume "t = x"
    with extend show ?thesis by simp
  qed
next
  case (fresh bl x)
  from assms(3) fresh(3) have "t \<in> set bl \<or> t = x" by auto
  then show ?thesis
  proof
    assume "t \<in> set bl"
    with fresh show ?thesis by auto
  next
    assume "t = x"
    with fresh show ?thesis by simp
  qed
qed

text \<open>What an iteration adds for the characters it reads.\<close>

lemma run_body_reads:
  assumes "inv_last s" and "inv_tok s" and "index s < length (input s)"
    and "index s \<le> i" and "i < index (run_body s)" and "\<not> isNewLine [input s ! i]"
  shows "i = index s \<and> index (run_body s) = index s + 1 \<and>
         (\<exists>t\<in>set (tokenList (run_body s)). tok_start t \<le> i \<and> i < tok_end t)"
  using assms(1,3)
proof (cases rule: run_body_cases)
  case (newline w)
  with assms(4,5,6) show ?thesis by auto
next
  case first
  with assms(4,5) show ?thesis
    by (simp add: fresh_token_def)
next
  case (extend bl x)
  from assms(2) extend(3) have "tok_ok (input s) x"
    by (simp add: inv_tok_def)
  then have "tok_start x < tok_end x"
    by (simp add: tok_ok_def)
  with extend assms(4,5) show ?thesis
    by simp
next
  case (fresh bl x)
  with assms(4,5) show ?thesis
    by (simp add: fresh_token_def)
qed

lemma inv_cover_run_body:
  assumes "inv_last s" and "inv_tok s" and "inv_cover s" and "index s < length (input s)"
  shows "inv_cover (run_body s)"
  unfolding inv_cover_def
proof (intro allI impI)
  fix i
  assume i: "i < index (run_body s)" and nl: "\<not> isNewLine [input (run_body s) ! i]"
  show "\<exists>t\<in>set (tokenList (run_body s)). tok_start t \<le> i \<and> i < tok_end t"
  proof (cases "i < index s")
    case True
    with assms(3) nl obtain t where "t \<in> set (tokenList s)" "tok_start t \<le> i" "i < tok_end t"
      by (auto simp: inv_cover_def input_run_body)
    moreover from run_body_grows [OF assms(1,4) this(1)] obtain t' where
      "t' \<in> set (tokenList (run_body s))" "tok_start t' = tok_start t" "tok_end t \<le> tok_end t'"
      by blast
    ultimately have "t' \<in> set (tokenList (run_body s))" and "tok_start t' \<le> i \<and> i < tok_end t'"
      by simp_all
    then show ?thesis
      by blast
  next
    case False
    then have le: "index s \<le> i" by simp
    from nl have nl': "\<not> isNewLine [input s ! i]"
      by (simp add: input_run_body)
    from run_body_reads [OF assms(1,2,4) le i nl'] show ?thesis
      by blast
  qed
qed

lemma inv_pair_run_body:
  assumes "inv_last s" and "inv_tok s" and "inv_pair s" and "index s < length (input s)"
  shows "inv_pair (run_body s)"
  unfolding inv_pair_def input_run_body
proof (intro allI impI)
  fix i
  assume h: "Suc i < index (run_body s) \<and> \<not> isNewLine [input s ! i] \<and>
      \<not> isNewLine [input s ! Suc i] \<and> kind [input s ! i] = kind [input s ! Suc i] \<and>
      (kind [input s ! i] = Whitespace \<or> kind [input s ! i] = Word)"
  show "\<exists>t\<in>set (tokenList (run_body s)). tok_start t \<le> i \<and> Suc i < tok_end t"
  proof (cases "Suc i < index s")
    case True
    with assms(3) h obtain t where t: "t \<in> set (tokenList s)" "tok_start t \<le> i" "Suc i < tok_end t"
      unfolding inv_pair_def by blast
    from run_body_grows [OF assms(1,4) t(1)] obtain t' where
      "t' \<in> set (tokenList (run_body s))" "tok_start t' = tok_start t" "tok_end t \<le> tok_end t'"
      by blast
    with t have "t' \<in> set (tokenList (run_body s))" and "tok_start t' \<le> i \<and> Suc i < tok_end t'"
      by simp_all
    then show ?thesis by blast
  next
    case False
    then have le: "index s \<le> Suc i" by simp
    from assms(1,4) show ?thesis
    proof (cases rule: run_body_cases)
      case (newline w)
      from h newline(5) have "Suc i < index s + w" by simp
      with le newline(4) have "isNewLine [input s ! Suc i]" by blast
      with h show ?thesis by simp
    next
      case first
      with h le have "Suc i = index s" by simp
      then have "0 < index s" and "index s - 1 = i" by simp_all
      with assms(1) first(2) have "isNewLine [input s ! i]"
        by (simp add: inv_last_def)
      with h show ?thesis by simp
    next
      case (extend bl x)
      with h le have i: "Suc i = index s" by simp
      from assms(2) extend(3) have "tok_ok (input s) x"
        by (simp add: inv_tok_def)
      then have "tok_start x < tok_end x"
        by (simp add: tok_ok_def)
      with extend i show ?thesis
        by simp
    next
      case (fresh bl x)
      with h le have i: "Suc i = index s" by simp
      then have "index s - 1 = i" by simp
      with fresh(8) have tx: "tok_type x = kind [input s ! i]" by simp
      from h i have same: "kind [input s ! i] = kind [input s ! index s]"
        and mergeable: "kind [input s ! i] = Whitespace \<or> kind [input s ! i] = Word"
        by auto
      from fresh(4) tx same mergeable have False
        by auto
      then show ?thesis ..
    qed
  qed
qed

lemma run_body_keeps_sign:
  assumes "inv_last s" and "index s < length (input s)" and "t \<in> set (tokenList s)"
    and "tok_type t = Sign" and "length (tok_value t) = 1"
  shows "t \<in> set (tokenList (run_body s))"
  using assms(1,2)
proof (cases rule: run_body_cases)
  case (newline w)
  with assms(3) show ?thesis by simp
next
  case first
  with assms(3) show ?thesis by simp
next
  case (extend bl x)
  with assms(4) have "t \<noteq> x" by auto
  with assms(3) extend show ?thesis by simp
next
  case (fresh bl x)
  have "promote t = t"
    using assms(5) isKeyword_length [of "tok_value t"] by (auto simp: promote_def)
  with assms(3) fresh show ?thesis by auto
qed

lemma inv_sign_run_body:
  assumes "inv_last s" and "inv_sign s" and "index s < length (input s)"
  shows "inv_sign (run_body s)"
  unfolding inv_sign_def input_run_body
proof (intro allI impI)
  fix i
  assume i: "i < index (run_body s)" and sg: "isSign [input s ! i]"
  show "\<exists>t\<in>set (tokenList (run_body s)). sign_at (input s) i t"
  proof (cases "i < index s")
    case True
    with assms(2) sg obtain t where t: "t \<in> set (tokenList s)" "sign_at (input s) i t"
      unfolding inv_sign_def by blast
    then have "t \<in> set (tokenList (run_body s))"
      by (intro run_body_keeps_sign [OF assms(1,3)]) (simp_all add: sign_at_def)
    with t(2) show ?thesis by blast
  next
    case False
    then have le: "index s \<le> i" by simp
    from isSign_kind [OF sg] have k: "kind [input s ! i] = Sign" and nl: "\<not> isNewLine [input s ! i]"
      by simp_all
    from assms(1,3) show ?thesis
    proof (cases rule: run_body_cases)
      case (newline w)
      from i newline(5) have "i < index s + w" by simp
      with le newline(4) have "isNewLine [input s ! i]" by blast
      with nl show ?thesis by simp
    next
      case first
      with i le have "i = index s" by simp
      with first k show ?thesis
        by (simp add: sign_at_def fresh_token_def)
    next
      case (extend bl x)
      with i le have "i = index s" by simp
      with extend(5) k show ?thesis by simp
    next
      case (fresh bl x)
      with i le have "i = index s" by simp
      with fresh k show ?thesis
        by (simp add: sign_at_def fresh_token_def)
    qed
  qed
qed

lemma inv_scan_run_loop: "inv_scan (run_loop (new_Tokenizer\<lparr>input := inp\<rparr>))"
proof (rule run_loop_invariant)
  show "inv_scan (new_Tokenizer\<lparr>input := inp\<rparr>)"
    by (simp add: inv_scan_def inv_last_init,
        simp add: new_Tokenizer_def inv_tok_def inv_cover_def inv_pair_def inv_sign_def)
next
  fix s
  assume "inv_scan s" and "index s < length (input s)"
  then show "inv_scan (run_body s)"
    by (simp add: inv_scan_def inv_last_run_body inv_tok_run_body inv_cover_run_body
        inv_pair_run_body inv_sign_run_body)
qed

lemma scan_final:
  "index (run_loop (new_Tokenizer\<lparr>input := inp\<rparr>)) = length inp"
  "input (run_loop (new_Tokenizer\<lparr>input := inp\<rparr>)) = inp"
  "tokenList (run_loop (new_Tokenizer\<lparr>input := inp\<rparr>)) = tokenizer inp"
  by (simp_all add: index_run_loop [OF inv_last_init] input_run_loop tokenizer_def run_def)

text \<open>
  C7: two neighbouring characters that are both Word characters, or both Whitespace
  characters (neither is a line break, so no line break separates them), lie in one
  token of the output, whose text is the slice of the input between its offsets.
  Two neighbouring characters of the Sign set each have their own Sign token of
  one character.
\<close>

theorem adjacent_characters:
  "(Suc i < length inp \<and> classify [inp ! i] = Some k \<and> classify [inp ! Suc i] = Some k \<and>
      (k = Word \<or> k = Whitespace) \<longrightarrow>
      (\<exists>t\<in>set (tokenizer inp).
         tok_start t \<le> i \<and> Suc i < tok_end t \<and>
         tok_value t = take (tok_end t - tok_start t) (drop (tok_start t) inp))) \<and>
   (Suc i < length inp \<and> isSign [inp ! i] \<and> isSign [inp ! Suc i] \<longrightarrow>
      (\<exists>t\<in>set (tokenizer inp). \<exists>u\<in>set (tokenizer inp).
         sign_at inp i t \<and> sign_at inp (Suc i) u \<and> t \<noteq> u))"
proof (intro conjI impI)
  let ?f = "run_loop (new_Tokenizer\<lparr>input := inp\<rparr>)"
  assume h: "Suc i < length inp \<and> classify [inp ! i] = Some k \<and> classify [inp ! Suc i] = Some k \<and>
      (k = Word \<or> k = Whitespace)"
  from inv_scan_run_loop [of inp] have tok: "inv_tok ?f" and pair: "inv_pair ?f"
    by (simp_all add: inv_scan_def)
  from h classify_Some [of "[inp ! i]" k] classify_Some [of "[inp ! Suc i]" k]
  have "Suc i < length inp \<and> \<not> isNewLine [inp ! i] \<and> \<not> isNewLine [inp ! Suc i] \<and>
      kind [inp ! i] = kind [inp ! Suc i] \<and> (kind [inp ! i] = Whitespace \<or> kind [inp ! i] = Word)"
    by auto
  with pair obtain t where t: "t \<in> set (tokenizer inp)" "tok_start t \<le> i" "Suc i < tok_end t"
    unfolding inv_pair_def scan_final by blast
  with tok have "tok_ok inp t"
    unfolding inv_tok_def scan_final by blast
  then have "tok_value t = take (tok_end t - tok_start t) (drop (tok_start t) inp)"
    by (simp add: tok_ok_def)
  with t show "\<exists>t\<in>set (tokenizer inp).
         tok_start t \<le> i \<and> Suc i < tok_end t \<and>
         tok_value t = take (tok_end t - tok_start t) (drop (tok_start t) inp)"
    by blast
next
  let ?f = "run_loop (new_Tokenizer\<lparr>input := inp\<rparr>)"
  assume h: "Suc i < length inp \<and> isSign [inp ! i] \<and> isSign [inp ! Suc i]"
  from inv_scan_run_loop [of inp] have sg: "inv_sign ?f"
    by (simp add: inv_scan_def)
  from h have "i < length inp" by simp
  with sg h obtain t where t: "t \<in> set (tokenizer inp)" "sign_at inp i t"
    unfolding inv_sign_def scan_final by blast
  from sg h obtain u where u: "u \<in> set (tokenizer inp)" "sign_at inp (Suc i) u"
    unfolding inv_sign_def scan_final by blast
  from t(2) u(2) have "t \<noteq> u"
    by (auto simp: sign_at_def)
  with t u show "\<exists>t\<in>set (tokenizer inp). \<exists>u\<in>set (tokenizer inp).
         sign_at inp i t \<and> sign_at inp (Suc i) u \<and> t \<noteq> u"
    by blast
qed

theorem adjacent_characters_witness:
  "(\<exists>t\<in>set (tokenizer (str ''ab(('')).
      tok_start t \<le> 0 \<and> Suc 0 < tok_end t \<and>
      tok_value t = take (tok_end t - tok_start t) (drop (tok_start t) (str ''ab((''))) \<and>
   (\<exists>t\<in>set (tokenizer (str ''ab(('')). \<exists>u\<in>set (tokenizer (str ''ab(('')).
      sign_at (str ''ab(('') 2 t \<and> sign_at (str ''ab(('') (Suc 2) u \<and> t \<noteq> u)"
proof -
  have h1: "Suc 0 < length (str ''ab(('') \<and> classify [str ''ab(('' ! 0] = Some Word \<and>
      classify [str ''ab(('' ! Suc 0] = Some Word \<and> (Word = Word \<or> Word = Whitespace)"
    by code_simp
  have h2: "Suc 2 < length (str ''ab(('') \<and> isSign [str ''ab(('' ! 2] \<and>
      isSign [str ''ab(('' ! Suc 2]"
    by code_simp
  from adjacent_characters [of 0 "str ''ab((''" Word] h1
  have a: "\<exists>t\<in>set (tokenizer (str ''ab(('')).
      tok_start t \<le> 0 \<and> Suc 0 < tok_end t \<and>
      tok_value t = take (tok_end t - tok_start t) (drop (tok_start t) (str ''ab((''))"
    by blast
  from adjacent_characters [of 2 "str ''ab((''"] h2
  have b: "\<exists>t\<in>set (tokenizer (str ''ab(('')). \<exists>u\<in>set (tokenizer (str ''ab(('')).
      sign_at (str ''ab(('') 2 t \<and> sign_at (str ''ab(('') (Suc 2) u \<and> t \<noteq> u"
    by blast
  from a b show ?thesis ..
qed

text \<open>
  C10: the tokenizer is a total function (the termination of \<open>run_loop\<close> is proved
  with its definition, and no operation of the scanner can throw). Every character
  of the input that is not a line break has exactly one of the types Whitespace,
  Word and Sign, and lies in a token of that type, or of type Keyword when the
  token of Word characters has been retagged.
\<close>

theorem every_character_classified:
  assumes "i < length inp" and "\<not> isNewLine [inp ! i]"
  shows "\<exists>k. classify [inp ! i] = Some k \<and> (k = Whitespace \<or> k = Word \<or> k = Sign) \<and>
           (\<exists>t\<in>set (tokenizer inp).
              tok_start t \<le> i \<and> i < tok_end t \<and>
              tok_value t = take (tok_end t - tok_start t) (drop (tok_start t) inp) \<and>
              (tok_type t = k \<or> tok_type t = Keyword \<and> k = Word))"
proof -
  let ?f = "run_loop (new_Tokenizer\<lparr>input := inp\<rparr>)"
  from inv_scan_run_loop [of inp] have tok: "inv_tok ?f" and cov: "inv_cover ?f"
    by (simp_all add: inv_scan_def)
  from cov assms obtain t where t: "t \<in> set (tokenizer inp)" "tok_start t \<le> i" "i < tok_end t"
    unfolding inv_cover_def scan_final by blast
  with tok have ok: "tok_ok inp t"
    unfolding inv_tok_def scan_final by blast
  then have v: "tok_value t = take (tok_end t - tok_start t) (drop (tok_start t) inp)"
    and e: "tok_end t \<le> length inp"
    and cs: "\<forall>c\<in>set (tok_value t).
         \<not> isNewLine [c] \<and> (tok_type t = kind [c] \<or> tok_type t = Keyword \<and> kind [c] = Word)"
    by (simp_all add: tok_ok_def)
  have len: "length (tok_value t) = tok_end t - tok_start t"
    using e by (subst v) simp
  have "tok_value t ! (i - tok_start t) = inp ! i"
    using t(2,3) e by (subst v) simp
  moreover have "i - tok_start t < length (tok_value t)"
    using t(2,3) len by simp
  ultimately have "inp ! i \<in> set (tok_value t)"
    by (metis nth_mem)
  with cs have ty: "tok_type t = kind [inp ! i] \<or> tok_type t = Keyword \<and> kind [inp ! i] = Word"
    by blast
  have k: "kind [inp ! i] = Whitespace \<or> kind [inp ! i] = Word \<or> kind [inp ! i] = Sign"
    by (simp add: kind_def)
  from classify_kind [OF assms(2)] k t v ty show ?thesis
    by blast
qed

theorem every_character_classified_witness:
  "\<exists>k. classify [str ''if (x)'' ! 0] = Some k \<and> (k = Whitespace \<or> k = Word \<or> k = Sign) \<and>
       (\<exists>t\<in>set (tokenizer (str ''if (x)'')).
          tok_start t \<le> 0 \<and> 0 < tok_end t \<and>
          tok_value t = take (tok_end t - tok_start t) (drop (tok_start t) (str ''if (x)'')) \<and>
          (tok_type t = k \<or> tok_type t = Keyword \<and> k = Word))"
proof -
  have h1: "0 < length (str ''if (x)'')"
    by (simp add: str_def)
  have h2: "\<not> isNewLine [str ''if (x)'' ! 0]"
    by (simp add: str_def isNewLine_def lineFeed_def carriageReturn_def)
  from every_character_classified [OF h1 h2] show ?thesis .
qed

end
